theory Spec2Isabelle
  imports Complex_Main "HOL-Library.Sublist"
begin

section \<open>Strings as the extension sees them\<close>

text \<open>
  A JavaScript string is a sequence of UTF-16 code units. The model uses \<open>string\<close>
  (a list of \<open>char\<close>), one \<open>char\<close> per code unit below 256. In that range the
  characters that \<open>trim\<close>, \<open>trimEnd\<close> and the regular-expression class \<open>\s\<close> treat as
  white space are TAB, LF, VT, FF, CR, SPACE and NBSP (0xA0); the characters that the
  regular-expression dot refuses (line terminators) are LF and CR.
\<close>

definition is_space :: "char \<Rightarrow> bool" where
  "is_space c \<longleftrightarrow> (of_char c :: nat) \<in> {9, 10, 11, 12, 13, 32, 160}"

definition is_line_term :: "char \<Rightarrow> bool" where
  "is_line_term c \<longleftrightarrow> (of_char c :: nat) \<in> {10, 13}"

definition is_blank :: "char \<Rightarrow> bool" where
  \<comment> \<open>the class \<open>[ \t]\<close>\<close>
  "is_blank c \<longleftrightarrow> (of_char c :: nat) \<in> {9, 32}"

definition is_digit :: "char \<Rightarrow> bool" where
  "is_digit c \<longleftrightarrow> 48 \<le> (of_char c :: nat) \<and> (of_char c :: nat) \<le> 57"

definition is_alpha_us :: "char \<Rightarrow> bool" where
  \<comment> \<open>the class \<open>[A-Za-z_]\<close>\<close>
  "is_alpha_us c \<longleftrightarrow>
     (65 \<le> (of_char c :: nat) \<and> (of_char c :: nat) \<le> 90) \<or>
     (97 \<le> (of_char c :: nat) \<and> (of_char c :: nat) \<le> 122) \<or>
     (of_char c :: nat) = 95"

definition is_word :: "char \<Rightarrow> bool" where
  \<comment> \<open>the class \<open>\w\<close>\<close>
  "is_word c \<longleftrightarrow> is_alpha_us c \<or> is_digit c"

definition trimStart :: "string \<Rightarrow> string" where
  "trimStart s = dropWhile is_space s"

definition trimEnd :: "string \<Rightarrow> string" where
  "trimEnd s = rev (dropWhile is_space (rev s))"

definition trim :: "string \<Rightarrow> string" where
  "trim s = trimEnd (trimStart s)"

definition startsWith :: "string \<Rightarrow> string \<Rightarrow> bool" where
  "startsWith s p \<longleftrightarrow> prefix p s"

definition endsWith :: "string \<Rightarrow> string \<Rightarrow> bool" where
  "endsWith s p \<longleftrightarrow> suffix p s"

definition padEnd :: "string \<Rightarrow> nat \<Rightarrow> string" where
  \<comment> \<open>\<open>s.padEnd(n, " ")\<close>\<close>
  "padEnd s n = s @ replicate (n - length s) (CHR '' '')"

definition repeat :: "string \<Rightarrow> int \<Rightarrow> string" where
  \<comment> \<open>\<open>s.repeat(n)\<close>; the count is never negative where the formatter calls it\<close>
  "repeat s n = concat (replicate (nat n) s)"

fun join :: "string \<Rightarrow> string list \<Rightarrow> string" where
  "join sep [] = []"
| "join sep [x] = x"
| "join sep (x # y # ys) = x @ sep @ join sep (y # ys)"

function split_on :: "char \<Rightarrow> string \<Rightarrow> string list" where
  "split_on d s =
     (case dropWhile (\<lambda>c. c \<noteq> d) s of
        [] \<Rightarrow> [s]
      | _ # r \<Rightarrow> takeWhile (\<lambda>c. c \<noteq> d) s # split_on d r)"
  by pat_completeness auto
termination
proof (relation "measure (\<lambda>(d, s). length s)")
  fix d :: char and s :: string and x r
  assume "dropWhile (\<lambda>c. c \<noteq> d) s = x # r"
  moreover have "length (dropWhile (\<lambda>c. c \<noteq> d) s) \<le> length s"
    by (rule length_dropWhile_le)
  ultimately show "((d, r), (d, s)) \<in> measure (\<lambda>(d, s). length s)"
    by simp
qed simp

declare split_on.simps [simp del]

fun split_lines :: "string \<Rightarrow> string list" where
  \<comment> \<open>\<open>input.split(/\r?\n/)\<close>\<close>
  "split_lines [] = [[]]"
| "split_lines (c # cs) =
     (if c = CHR 0x0A then [] # split_lines cs
      else if c = CHR 0x0D \<and> cs \<noteq> [] \<and> hd cs = CHR 0x0A then [] # split_lines (tl cs)
      else (case split_lines cs of
              [] \<Rightarrow> [[c]]
            | l # ls \<Rightarrow> (c # l) # ls))"

section \<open>The formatter\<close>

record FormatOpts =
  enabled :: bool
  onSave :: bool
  alignColons :: bool
  maxEmptyLines :: int
  trimTrailingWhitespace :: bool
  spaceAfterCommaInTuples :: bool
  indent :: string

record KV =
  kv_indentStr :: string
  kv_key :: string
  kv_value :: string
  kv_level :: int

record fstate =
  level :: int
  emptyRun :: int
  group :: "KV list"
  groupLevel :: "int option"
  out :: "string list"

definition init_state :: fstate where
  "init_state = \<lparr>level = 0, emptyRun = 0, group = [], groupLevel = None, out = []\<rparr>"

definition maxKey :: "KV list \<Rightarrow> nat" where
  \<comment> \<open>\<open>Math.max(...group.map((g) => g.key.length))\<close> on a group that is not empty\<close>
  "maxKey g = foldr max (map (\<lambda>e. length (kv_key e)) g) 0"

definition render :: "bool \<Rightarrow> nat \<Rightarrow> KV \<Rightarrow> string" where
  "render align w e =
     trimEnd (kv_indentStr e @ (if align then padEnd (kv_key e) w else kv_key e)
              @ '': '' @ kv_value e)"

definition flushGroup :: "FormatOpts \<Rightarrow> fstate \<Rightarrow> fstate" where
  "flushGroup opts st =
     (if group st = [] then st
      else st\<lparr>out := out st @ map (render (alignColons opts) (maxKey (group st))) (group st),
              group := [], groupLevel := None\<rparr>)"

definition isComment :: "string \<Rightarrow> bool" where
  "isComment t \<longleftrightarrow> startsWith t ''#'' \<or> startsWith t ''//''"

definition isDirective :: "string \<Rightarrow> bool" where
  "isDirective t \<longleftrightarrow> startsWith t ''@''"

definition is_key_char :: "char \<Rightarrow> bool" where
  \<comment> \<open>the class \<open>[A-Za-z0-9_\.\-]\<close>\<close>
  "is_key_char c \<longleftrightarrow> is_alpha_us c \<or> is_digit c \<or> c = CHR ''.'' \<or> c = CHR ''-''"

definition kv_rest :: "string \<Rightarrow> string \<Rightarrow> (string \<times> string) option" where
  \<comment> \<open>the tail \<open>\s*:\s*(.*)$\<close> of the key/value pattern, after the key \<open>k\<close>\<close>
  "kv_rest k r =
     (case dropWhile is_space r of
        [] \<Rightarrow> None
      | d # ds \<Rightarrow>
          if d \<noteq> CHR '':'' then None
          else let v = dropWhile is_space ds
               in if \<exists>c \<in> set v. is_line_term c then None else Some (k, v))"

definition kvRe :: "string \<Rightarrow> (string \<times> string) option" where
  \<comment> \<open>\<open>/^([A-Za-z_][A-Za-z0-9_\.\-]*(?:\[\])?)\s*:\s*(.*)$/\<close>: the groups 1 and 2\<close>
  "kvRe t =
     (case t of
        [] \<Rightarrow> None
      | c # cs \<Rightarrow>
          if \<not> is_alpha_us c then None
          else let k = c # takeWhile is_key_char cs;
                   r = dropWhile is_key_char cs
               in if prefix ''[]'' r then kv_rest (k @ ''[]'') (drop 2 r)
                  else kv_rest k r)"

definition tupleRe :: "string \<Rightarrow> string option" where
  \<comment> \<open>\<open>/^\((.*)\)$/\<close>: group 1\<close>
  "tupleRe v =
     (if 2 \<le> length v \<and> hd v = CHR ''('' \<and> last v = CHR '')''
         \<and> \<not> (\<exists>c \<in> set (butlast (tl v)). is_line_term c)
      then Some (butlast (tl v)) else None)"

definition normTuple :: "string \<Rightarrow> string" where
  "normTuple v =
     (case tupleRe v of
        None \<Rightarrow> v
      | Some inner \<Rightarrow> ''('' @ join '', '' (map trim (split_on (CHR '','') inner)) @ '')'')"

definition stripBlanks :: "string \<Rightarrow> string" where
  \<comment> \<open>\<open>raw.replace(/[ \t]+$/g, "")\<close>\<close>
  "stripBlanks s = rev (dropWhile is_blank (rev s))"

definition fixBrace :: "string \<Rightarrow> string" where
  \<comment> \<open>\<open>s.replace(/\s*\{$/, " {")\<close>\<close>
  "fixBrace s = (if endsWith s ''{'' then trimEnd (butlast s) @ '' {'' else s)"

definition push :: "string \<Rightarrow> fstate \<Rightarrow> fstate" where
  "push l st = st\<lparr>out := out st @ [l]\<rparr>"

definition openBlock :: "string \<Rightarrow> fstate \<Rightarrow> fstate" where
  \<comment> \<open>\<open>if (trimmed.endsWith("{")) level++\<close>\<close>
  "openBlock t st = (if endsWith t ''{'' then st\<lparr>level := level st + 1\<rparr> else st)"

definition addKV :: "FormatOpts \<Rightarrow> KV \<Rightarrow> fstate \<Rightarrow> fstate" where
  "addKV opts e st =
     (if groupLevel st = None then st\<lparr>groupLevel := Some (level st), group := group st @ [e]\<rparr>
      else if groupLevel st = Some (level st) then st\<lparr>group := group st @ [e]\<rparr>
      else (let st' = flushGroup opts st
            in st'\<lparr>groupLevel := Some (level st'), group := group st' @ [e]\<rparr>))"

definition fixLast :: "fstate \<Rightarrow> fstate" where
  \<comment> \<open>\<open>out[out.length - 1] = out[out.length - 1].replace(/\s*\{$/, " {")\<close>; the array is
      never empty there, a group has just been flushed\<close>
  "fixLast st = (if out st = [] then st
                 else st\<lparr>out := butlast (out st) @ [fixBrace (last (out st))]\<rparr>)"

definition blankStep :: "FormatOpts \<Rightarrow> fstate \<Rightarrow> fstate" where
  \<comment> \<open>the branch \<open>trimmed.length === 0\<close>\<close>
  "blankStep opts st =
     (let st1 = flushGroup opts st;
          st2 = st1\<lparr>emptyRun := emptyRun st1 + 1\<rparr>
      in if emptyRun st2 \<le> maxEmptyLines opts then push [] st2 else st2)"

definition dedent :: "string \<Rightarrow> fstate \<Rightarrow> fstate" where
  \<comment> \<open>\<open>if (trimmed.startsWith("}")) level = Math.max(0, level - 1)\<close>\<close>
  "dedent t st = (if startsWith t ''}'' then st\<lparr>level := max 0 (level st - 1)\<rparr> else st)"

definition passStep :: "FormatOpts \<Rightarrow> string \<Rightarrow> fstate \<Rightarrow> fstate" where
  \<comment> \<open>\<open>flushGroup(); out.push(indentStr + trimmed); if (trimmed.endsWith("{")) level++\<close>\<close>
  "passStep opts t st =
     openBlock t (push (repeat (indent opts) (level st) @ t) (flushGroup opts st))"

definition normValue :: "FormatOpts \<Rightarrow> string \<Rightarrow> string" where
  "normValue opts v0 =
     (let v1 = trim v0 in if spaceAfterCommaInTuples opts then normTuple v1 else v1)"

definition kvStep :: "FormatOpts \<Rightarrow> string \<Rightarrow> string \<Rightarrow> fstate \<Rightarrow> fstate" where
  \<comment> \<open>the branch of a key/value line, with the key and the normalised value\<close>
  "kvStep opts k v st =
     (let st2 = addKV opts \<lparr>kv_indentStr = repeat (indent opts) (level st), kv_key = k,
                            kv_value = v, kv_level = level st\<rparr> st
      in if endsWith v ''{''
         then (let st3 = fixLast (flushGroup opts st2) in st3\<lparr>level := level st3 + 1\<rparr>)
         else st2)"

definition step :: "FormatOpts \<Rightarrow> fstate \<Rightarrow> string \<Rightarrow> fstate" where
  \<comment> \<open>one round of the loop over the lines\<close>
  "step opts st line =
     (let raw = (if trimTrailingWhitespace opts then stripBlanks line else line);
          trimmed = trim raw
      in if trimmed = [] then blankStep opts st
         else
           (let st1 = dedent trimmed (st\<lparr>emptyRun := 0\<rparr>)
            in if trimmed = ''SiiNunit'' \<or> trimmed = ''SiiNunit{'' \<or> trimmed = ''SiiNunit {''
               then push ''SiiNunit'' (flushGroup opts st1)
               else if trimmed = ''{'' \<or> trimmed = ''}'' \<or> isComment trimmed \<or> isDirective trimmed
               then passStep opts trimmed st1
               else (case kvRe trimmed of
                       Some (k, v0) \<Rightarrow> kvStep opts k (normValue opts v0) st1
                     | None \<Rightarrow> passStep opts trimmed st1)))"

definition formatLines :: "FormatOpts \<Rightarrow> string list \<Rightarrow> string list" where
  \<comment> \<open>the array \<open>out\<close> when the loop and the last \<open>flushGroup()\<close> are done\<close>
  "formatLines opts ls = out (flushGroup opts (foldl (step opts) init_state ls))"

definition formatScsText :: "string \<Rightarrow> FormatOpts \<Rightarrow> string" where
  "formatScsText input opts = join [CHR 0x0A] (formatLines opts (split_lines input))"

definition default_opts :: FormatOpts where
  \<comment> \<open>the defaults of \<open>getFormatOpts\<close>\<close>
  "default_opts = \<lparr>enabled = True, onSave = False, alignColons = True, maxEmptyLines = 1,
     trimTrailingWhitespace = True, spaceAfterCommaInTuples = True, indent = [CHR 0x09]\<rparr>"

section \<open>Line tests shared by the colour engine and the key validator\<close>

definition isCommentOrEmpty :: "string \<Rightarrow> bool" where
  "isCommentOrEmpty line =
     (let t = trim line
      in t = [] \<or> startsWith t ''//'' \<or> startsWith t ''/*'' \<or> startsWith t ''*''
         \<or> startsWith t ''*/'')"

definition keyRe :: "string \<Rightarrow> string option" where
  \<comment> \<open>\<open>/^\s*([A-Za-z_][\w]*)(\[\])?\s*:/\<close>: group 1\<close>
  "keyRe line =
     (case dropWhile is_space line of
        [] \<Rightarrow> None
      | c # cs \<Rightarrow>
          if \<not> is_alpha_us c then None
          else let k = c # takeWhile is_word cs;
                   r = dropWhile is_word cs;
                   r' = (if prefix ''[]'' r then drop 2 r else r)
               in (case dropWhile is_space r' of
                     [] \<Rightarrow> None
                   | d # _ \<Rightarrow> if d = CHR '':'' then Some k else None))"

definition toLower :: "char \<Rightarrow> char" where
  "toLower c =
     (let n = (of_char c :: nat)
      in if (65 \<le> n \<and> n \<le> 90) \<or> (192 \<le> n \<and> n \<le> 222 \<and> n \<noteq> 215)
         then char_of (n + 32) else c)"

definition toLowerCase :: "string \<Rightarrow> string" where
  "toLowerCase s = map toLower s"

fun str_includes :: "string \<Rightarrow> string \<Rightarrow> bool" where
  \<comment> \<open>\<open>s.str_includes(p)\<close>\<close>
  "str_includes [] p = (p = [])"
| "str_includes (c # cs) p = (prefix p (c # cs) \<or> str_includes cs p)"

definition isColorKey :: "string \<Rightarrow> bool" where
  \<comment> \<open>\<open>/colou?r/i.test(key)\<close>\<close>
  "isColorKey k \<longleftrightarrow> str_includes (toLowerCase k) ''color'' \<or> str_includes (toLowerCase k) ''colour''"

section \<open>The colour engine\<close>

text \<open>
  Numbers are IEEE doubles in the extension. A finite double is a rational number: zero,
  or \<open>n * 2 ^ (e - 52)\<close> with \<open>2 ^ 52 \<le> \<bar>n\<bar> < 2 ^ 53\<close> and \<open>- 1022 \<le> e \<le> 1023\<close>, or such
  a product with \<open>\<bar>n\<bar> < 2 ^ 52\<close> and \<open>e = - 1022\<close>. A decimal literal, a quotient and a
  product are the exact value rounded to the nearest double, to the one with the even
  \<open>n\<close> on a tie; comparisons, \<open>Math.round\<close> and \<open>toFixed\<close> are exact on doubles. The sign
  of zero is not modelled: no operation of the extension tells the two zeros apart.
\<close>

definition pow2 :: "int \<Rightarrow> rat" where
  "pow2 e = (if 0 \<le> e then 2 ^ nat e else 1 / 2 ^ nat (- e))"

function expUp :: "rat \<Rightarrow> int \<Rightarrow> int" where
  \<comment> \<open>for \<open>1 \<le> a\<close>: \<open>e\<close> plus the number of halvings that bring \<open>a\<close> below 2\<close>
  "expUp a e = (if a < 2 then e else expUp (a / 2) (e + 1))"
  by pat_completeness auto
termination
proof (relation "measure (\<lambda>(a, e). nat \<lfloor>a\<rfloor>)")
  fix a :: rat and e :: int
  assume "\<not> a < 2"
  then have "a / 2 \<le> a - 1" by simp
  then have "\<lfloor>a / 2\<rfloor> \<le> \<lfloor>a - 1\<rfloor>" by (rule floor_mono)
  moreover have "2 \<le> \<lfloor>a\<rfloor>" using \<open>\<not> a < 2\<close> by (simp add: le_floor_iff)
  ultimately show "((a / 2, e + 1), (a, e)) \<in> measure (\<lambda>(a, e). nat \<lfloor>a\<rfloor>)"
    by simp
qed simp

function expDown :: "rat \<Rightarrow> int \<Rightarrow> int" where
  \<comment> \<open>for \<open>0 < a < 1\<close>: \<open>e\<close> minus the number of doublings that bring \<open>a\<close> to 1 or above,
      not below the exponent of the subnormal doubles\<close>
  "expDown a e = (if 1 \<le> a \<or> e \<le> - 1022 then e else expDown (2 * a) (e - 1))"
  by pat_completeness auto
termination
  by (relation "measure (\<lambda>(a, e). nat (e + 1022))") simp_all

declare expUp.simps [simp del] expDown.simps [simp del]

definition exponent :: "rat \<Rightarrow> int" where
  \<comment> \<open>the exponent \<open>e\<close> of the doubles next to a positive number\<close>
  "exponent a = (if 1 \<le> a then expUp a 0 else expDown a 0)"

definition roundEven :: "rat \<Rightarrow> int" where
  \<comment> \<open>the nearest integer, the even one on a tie\<close>
  "roundEven q =
     (let f = \<lfloor>q\<rfloor>; r = q - of_int f
      in if r < 1 / 2 then f else if 1 / 2 < r then f + 1 else if even f then f else f + 1)"

definition nearest :: "rat \<Rightarrow> rat" where
  \<comment> \<open>round to nearest, ties to even, with no bound on the exponent from above\<close>
  "nearest x =
     (if x = 0 then 0
      else let ulp = pow2 (exponent \<bar>x\<bar> - 52) in of_int (roundEven (x / ulp)) * ulp)"

datatype number = Num rat | PosInfinity | NegInfinity

definition toNumber :: "rat \<Rightarrow> number" where
  \<comment> \<open>the Number value for a mathematical value: the exponent of a double is 1023 at
      most, and what rounds to \<open>2 ^ 1024\<close> or beyond is an infinity\<close>
  "toNumber x =
     (let d = nearest x
      in if d = 0 \<or> exponent \<bar>d\<bar> < 1024 then Num d
         else if 0 < d then PosInfinity else NegInfinity)"

definition divD :: "rat \<Rightarrow> rat \<Rightarrow> rat" where
  \<comment> \<open>\<open>x / y\<close> on doubles, where the quotient is in the range of the doubles: the extension
      divides by 255 only\<close>
  "divD x y = nearest (x / y)"

definition mulD :: "rat \<Rightarrow> rat \<Rightarrow> rat" where
  \<comment> \<open>\<open>x * y\<close> on doubles, where the product is in the range of the doubles: the extension
      multiplies a number between 0 and 1 by 255 only\<close>
  "mulD x y = nearest (x * y)"

text \<open>
  A number that may not be finite is modelled as \<open>rat option\<close> in the matches: \<open>None\<close> is a
  value that \<open>isFinite\<close> rejects (NaN or an infinity). The results of \<open>tupleRe.exec(line)\<close>
  and \<open>hexRe.exec(line)\<close>, called until they return \<open>null\<close>, are given to the model as
  lists of matches in the order of the loop, with \<open>parseFloat\<close> and \<open>parseInt(_, 16)\<close>
  already applied to the groups.
\<close>

record tupleMatch =
  tm_index :: nat
  tm_length :: nat
  tm_r :: "rat option"
  tm_g :: "rat option"
  tm_b :: "rat option"
  tm_a :: "rat option option"

record hexMatch =
  hm_index :: nat
  hm_length :: nat
  hm_r :: nat
  hm_g :: nat
  hm_b :: nat
  hm_a :: "nat option"

record color =
  red :: rat
  green :: rat
  blue :: rat
  alpha :: rat

record colorInfo =
  ci_line :: nat
  ci_start :: nat
  ci_end :: nat
  ci_color :: color

definition clamp01 :: "rat \<Rightarrow> rat" where
  "clamp01 v = (if v < 0 then 0 else if v > 1 then 1 else v)"

definition tupleColor :: "tupleMatch \<Rightarrow> color option" where
  \<comment> \<open>the body of the loop over tuple matches: \<open>None\<close> is the \<open>continue\<close>\<close>
  "tupleColor m =
     (let aRaw = (case tm_a m of None \<Rightarrow> Some 1 | Some x \<Rightarrow> x)
      in case (tm_r m, tm_g m, tm_b m, aRaw) of
           (Some r, Some g, Some b, Some a) \<Rightarrow>
             (let scale255 = (max (max (max r g) b) a > 1)
              in Some \<lparr>red = clamp01 (if scale255 then divD r 255 else r),
                       green = clamp01 (if scale255 then divD g 255 else g),
                       blue = clamp01 (if scale255 then divD b 255 else b),
                       alpha = clamp01 (if scale255 then divD a 255 else a)\<rparr>)
         | _ \<Rightarrow> None)"

definition tupleInfo :: "nat \<Rightarrow> tupleMatch \<Rightarrow> colorInfo list" where
  "tupleInfo lineNo m =
     (case tupleColor m of
        None \<Rightarrow> []
      | Some c \<Rightarrow> [\<lparr>ci_line = lineNo, ci_start = tm_index m,
                     ci_end = tm_index m + tm_length m, ci_color = c\<rparr>])"

definition hexInfo :: "nat \<Rightarrow> hexMatch \<Rightarrow> colorInfo list" where
  "hexInfo lineNo h =
     [\<lparr>ci_line = lineNo, ci_start = hm_index h, ci_end = hm_index h + hm_length h,
       ci_color = \<lparr>red = clamp01 (divD (of_nat (hm_r h)) 255),
                    green = clamp01 (divD (of_nat (hm_g h)) 255),
                    blue = clamp01 (divD (of_nat (hm_b h)) 255),
                    alpha = clamp01 (case hm_a h of None \<Rightarrow> 1
                                      | Some a \<Rightarrow> divD (of_nat a) 255)\<rparr>\<rparr>]"

definition lineColors ::
  "(string \<Rightarrow> tupleMatch list) \<Rightarrow> (string \<Rightarrow> hexMatch list) \<Rightarrow> nat \<Rightarrow> string
     \<Rightarrow> colorInfo list" where
  \<comment> \<open>one round of the loop over the lines of \<open>provideDocumentColors\<close>\<close>
  "lineColors tupleExec hexExec lineNo line =
     (if isCommentOrEmpty line then []
      else case keyRe line of
             None \<Rightarrow> []
           | Some k \<Rightarrow>
               if \<not> isColorKey k then []
               else concat (map (tupleInfo lineNo) (tupleExec line))
                    @ concat (map (hexInfo lineNo) (hexExec line)))"

definition provideDocumentColors ::
  "bool \<Rightarrow> (string \<Rightarrow> tupleMatch list) \<Rightarrow> (string \<Rightarrow> hexMatch list) \<Rightarrow> string list
     \<Rightarrow> colorInfo list" where
  "provideDocumentColors enableColorPicker tupleExec hexExec ls =
     (if \<not> enableColorPicker then []
      else concat (map (\<lambda>(i, l). lineColors tupleExec hexExec i l)
                        (zip [0 ..< length ls] ls)))"

definition allFinite :: "tupleMatch \<Rightarrow> bool" where
  \<comment> \<open>\<open>isFinite(r) && isFinite(g) && isFinite(b) && isFinite(aRaw)\<close>\<close>
  "allFinite m \<longleftrightarrow>
     tm_r m \<noteq> None \<and> tm_g m \<noteq> None \<and> tm_b m \<noteq> None \<and> tm_a m \<noteq> Some None"

subsection \<open>Presentations\<close>

definition numAt :: "string \<Rightarrow> nat option" where
  \<comment> \<open>the length of the match of \<open>[+-]?\d*\.?\d+\<close> at the head of the string, if there is one\<close>
  "numAt s =
     (let sg = (case s of [] \<Rightarrow> 0 | c # _ \<Rightarrow> if c = CHR ''+'' \<or> c = CHR ''-'' then 1 else 0);
          r = drop sg s;
          d1 = takeWhile is_digit r;
          d2 = (case dropWhile is_digit r of
                  [] \<Rightarrow> []
                | c # r2 \<Rightarrow> if c = CHR ''.'' then takeWhile is_digit r2 else [])
      in if d2 \<noteq> [] then Some (sg + length d1 + 1 + length d2)
         else if d1 \<noteq> [] then Some (sg + length d1)
         else None)"

function numMatches :: "string \<Rightarrow> string list" where
  \<comment> \<open>\<open>s.match(/[+-]?\d*\.?\d+/g)\<close>, the empty list for \<open>null\<close>\<close>
  "numMatches s =
     (if s = [] then []
      else case numAt s of
             None \<Rightarrow> numMatches (tl s)
           | Some k \<Rightarrow> take k s # numMatches (drop k s))"
  by pat_completeness auto
termination
proof (relation "measure length")
  fix s :: string and k
  assume "s \<noteq> []" and "numAt s = Some k"
  then have "0 < k"
    by (auto simp: numAt_def Let_def split: if_splits)
  with \<open>s \<noteq> []\<close> show "(drop k s, s) \<in> measure length" by simp
qed simp_all

declare numMatches.simps [simp del]

definition digitVal :: "char \<Rightarrow> nat" where
  "digitVal c = (of_char c :: nat) - 48"

definition decVal :: "string \<Rightarrow> nat" where
  "decVal ds = foldl (\<lambda>a c. 10 * a + digitVal c) 0 ds"

definition parseFloat :: "string \<Rightarrow> number" where
  \<comment> \<open>\<open>parseFloat\<close> on a match of \<open>[+-]?\d*\.?\d+\<close>: the Number value for the decimal
      value of the literal\<close>
  "parseFloat s =
     (let neg = (s \<noteq> [] \<and> hd s = CHR ''-'');
          r = (if s \<noteq> [] \<and> (hd s = CHR ''+'' \<or> hd s = CHR ''-'') then tl s else s);
          ip = takeWhile is_digit r;
          fp = takeWhile is_digit (drop 1 (dropWhile is_digit r));
          v = of_nat (decVal ip) + of_nat (decVal fp) / 10 ^ length fp
      in toNumber (if neg then - v else v))"

definition gtOne :: "number \<Rightarrow> bool" where
  \<comment> \<open>\<open>n > 1.0\<close>\<close>
  "gtOne n = (case n of Num v \<Rightarrow> 1 < v | PosInfinity \<Rightarrow> True | NegInfinity \<Rightarrow> False)"

definition is_hex :: "char \<Rightarrow> bool" where
  "is_hex c \<longleftrightarrow> is_digit c \<or> (65 \<le> (of_char c :: nat) \<and> (of_char c :: nat) \<le> 70)
                 \<or> (97 \<le> (of_char c :: nat) \<and> (of_char c :: nat) \<le> 102)"

fun hasHex8 :: "string \<Rightarrow> bool" where
  \<comment> \<open>\<open>/#(?:[0-9a-fA-F]{8})/.test(s)\<close>\<close>
  "hasHex8 [] = False"
| "hasHex8 (c # cs) =
     ((c = CHR ''#'' \<and> 8 \<le> length cs \<and> (\<forall>x \<in> set (take 8 cs). is_hex x)) \<or> hasHex8 cs)"

definition has255 :: "string \<Rightarrow> bool" where
  "has255 original =
     (let mm = numMatches original
      in if length mm < 3 then False
         else \<exists>n \<in> set (map parseFloat (take (min (length mm) 4) mm)). gtOne n)"

definition hadTupleAlpha :: "string \<Rightarrow> bool" where
  "hadTupleAlpha original \<longleftrightarrow>
     4 \<le> length (numMatches original) \<and> startsWith original ''(''"

definition hadHexAlpha :: "string \<Rightarrow> bool" where
  "hadHexAlpha original \<longleftrightarrow> hasHex8 original"

definition digitChar :: "nat \<Rightarrow> char" where
  \<comment> \<open>the digit of a number below 10\<close>
  "digitChar d = ''0123456789'' ! d"

function decStr :: "nat \<Rightarrow> string" where
  \<comment> \<open>the decimal digits of a number\<close>
  "decStr n = (if n < 10 then [digitChar n] else decStr (n div 10) @ [digitChar (n mod 10)])"
  by pat_completeness auto
termination
  by (relation "measure id") simp_all

declare decStr.simps [simp del]

definition toFixed6 :: "rat \<Rightarrow> string" where
  \<comment> \<open>\<open>v.toFixed(6)\<close> for a magnitude below \<open>1e21\<close>: the nearest multiple of \<open>1e-6\<close>,
      the larger one on a tie\<close>
  "toFixed6 v =
     (let a = \<bar>v\<bar>;
          n = nat \<lfloor>a * 1000000 + 1 / 2\<rfloor>;
          ds = decStr n;
          padded = replicate (7 - length ds) (CHR ''0'') @ ds
      in (if v < 0 then ''-'' else []) @ take (length padded - 6) padded @ ''.''
         @ drop (length padded - 6) padded)"

definition to255 :: "rat \<Rightarrow> nat" where
  \<comment> \<open>\<open>Math.round(clamp01(v) * 255)\<close>\<close>
  "to255 v = nat \<lfloor>mulD (clamp01 v) 255 + 1 / 2\<rfloor>"

definition hexDigit :: "nat \<Rightarrow> char" where
  \<comment> \<open>the upper-case digit of a number below 16\<close>
  "hexDigit d = ''0123456789ABCDEF'' ! d"

definition hex2 :: "nat \<Rightarrow> string" where
  \<comment> \<open>\<open>n.toString(16).toUpperCase().padStart(2, '0')\<close> for \<open>n\<close> below 256\<close>
  "hex2 n = [hexDigit (n div 16), hexDigit (n mod 16)]"

definition tupleRGB :: "bool \<Rightarrow> color \<Rightarrow> string" where
  "tupleRGB b255 c =
     (if b255
      then ''('' @ decStr (to255 (red c)) @ '', '' @ decStr (to255 (green c)) @ '', ''
           @ decStr (to255 (blue c)) @ '')''
      else ''('' @ toFixed6 (red c) @ '', '' @ toFixed6 (green c) @ '', ''
           @ toFixed6 (blue c) @ '')'')"

definition tupleRGBA :: "bool \<Rightarrow> color \<Rightarrow> string" where
  "tupleRGBA b255 c =
     (if b255
      then ''('' @ decStr (to255 (red c)) @ '', '' @ decStr (to255 (green c)) @ '', ''
           @ decStr (to255 (blue c)) @ '', '' @ decStr (to255 (alpha c)) @ '')''
      else ''('' @ toFixed6 (red c) @ '', '' @ toFixed6 (green c) @ '', ''
           @ toFixed6 (blue c) @ '', '' @ toFixed6 (alpha c) @ '')'')"

definition hexRGB :: "color \<Rightarrow> string" where
  "hexRGB c = ''#'' @ hex2 (to255 (red c)) @ hex2 (to255 (green c)) @ hex2 (to255 (blue c))"

definition hexRGBA :: "color \<Rightarrow> string" where
  "hexRGBA c = hexRGB c @ hex2 (to255 (alpha c))"

definition threshold999 :: rat where
  \<comment> \<open>the double that the literal \<open>0.999\<close> denotes\<close>
  "threshold999 = 8998192055486251 / 9007199254740992"

definition wantsAlpha :: "color \<Rightarrow> string \<Rightarrow> bool" where
  "wantsAlpha c original \<longleftrightarrow>
     hadTupleAlpha original \<or> hadHexAlpha original \<or> alpha c < threshold999"

fun dedup :: "string list \<Rightarrow> string list \<Rightarrow> string list" where
  \<comment> \<open>the filter with the set \<open>seen\<close>: the first of equal labels stays\<close>
  "dedup seen [] = []"
| "dedup seen (l # ls) = (if l \<in> set seen then dedup seen ls else l # dedup (l # seen) ls)"

definition provideColorPresentations :: "color \<Rightarrow> string \<Rightarrow> string list" where
  \<comment> \<open>the labels of the presentations, for the colour and the text of the range\<close>
  "provideColorPresentations c text =
     (let original = trim text;
          preferHex = str_includes original ''#'';
          b255 = has255 original;
          wants = wantsAlpha c original;
          p1 = (if preferHex
                then [if wants then hexRGBA c else hexRGB c,
                      if wants then tupleRGBA b255 c else tupleRGB b255 c]
                else [if wants then tupleRGBA b255 c else tupleRGB b255 c,
                      if wants then hexRGBA c else hexRGB c]);
          p2 = (if \<not> wants then [tupleRGBA b255 c, hexRGBA c]
                else [tupleRGB b255 c, hexRGB c])
      in dedup [] (p1 @ p2))"

section \<open>The key validator\<close>

record document =
  languageId :: string
  fileName :: string
  doc_lines :: "string list"

record diagnostic =
  d_line :: nat
  d_start :: nat
  d_end :: nat
  d_key :: string

fun indexOf :: "string \<Rightarrow> string \<Rightarrow> nat" where
  \<comment> \<open>\<open>text.indexOf(key)\<close> for a key that occurs in the text\<close>
  "indexOf [] p = 0"
| "indexOf (c # cs) p = (if prefix p (c # cs) then 0 else Suc (indexOf cs p))"

definition validateLine :: "string set \<Rightarrow> nat \<Rightarrow> string \<Rightarrow> diagnostic list" where
  "validateLine vocabulary i text =
     (if isCommentOrEmpty text then []
      else let t = trim text
           in if startsWith t ''@'' then []
              else if startsWith t ''SiiNunit'' then []
              else if startsWith t ''{'' \<or> startsWith t ''}'' then []
              else case keyRe text of
                     None \<Rightarrow> []
                   | Some k \<Rightarrow>
                       if k \<in> vocabulary then []
                       else [\<lparr>d_line = i, d_start = indexOf text k,
                              d_end = indexOf text k + length k, d_key = k\<rparr>])"

definition validate ::
  "(string \<Rightarrow> string) \<Rightarrow> bool \<Rightarrow> string set \<Rightarrow> document \<Rightarrow> diagnostic list option" where
  \<comment> \<open>\<open>extname\<close> is \<open>path.extname\<close> of the platform, \<open>vocabulary\<close> the names of
      \<open>reservedWords\<close>. The result is what \<open>diagnostics.set\<close> receives for the document;
      \<open>None\<close>: the collection is left as it was.\<close>
  "validate extname enableDiagnostics vocabulary doc =
     (if languageId doc \<noteq> ''scs'' then None
      else if toLowerCase (extname (fileName doc)) \<noteq> ''.sii'' then Some []
      else if \<not> enableDiagnostics then Some []
      else Some (concat (map (\<lambda>(i, l). validateLine vocabulary i l)
                             (zip [0 ..< length (doc_lines doc)] (doc_lines doc)))))"

section \<open>The resource path resolver\<close>

record host =
  path_resolve :: "string \<Rightarrow> string \<Rightarrow> string"
  path_join :: "string \<Rightarrow> string \<Rightarrow> string"
  path_basename :: "string \<Rightarrow> string"
  can_open :: "string \<Rightarrow> bool"
  findFiles :: "string \<Rightarrow> string list"

text \<open>
  \<open>path_resolve\<close>, \<open>path_join\<close> and \<open>path_basename\<close> are the functions of the platform's
  \<open>path\<close> module. \<open>can_open p\<close> says that the body of the \<open>try\<close> in the loop over the
  candidates runs to its \<open>return\<close>: \<open>p\<close> exists, is a regular file and the editor can_open it
  (an exception there is swallowed and the loop goes on). \<open>findFiles\<close> is the workspace
  search by file name.
\<close>

datatype outcome = Ignored | Opened string | NotFound string

definition is_quote :: "char \<Rightarrow> bool" where
  "is_quote c \<longleftrightarrow> c = CHR 0x27 \<or> c = CHR 0x22"

definition cleanRaw :: "string \<Rightarrow> string" where
  \<comment> \<open>\<open>raw.replace(/^['\"]|['\"]$/g, '')\<close>\<close>
  "cleanRaw raw =
     (let s = (case raw of [] \<Rightarrow> [] | c # cs \<Rightarrow> if is_quote c then cs else raw)
      in if s \<noteq> [] \<and> is_quote (last s) then butlast s else s)"

definition isLetter :: "char \<Rightarrow> bool" where
  "isLetter c \<longleftrightarrow> (65 \<le> (of_char c :: nat) \<and> (of_char c :: nat) \<le> 90) \<or>
                 (97 \<le> (of_char c :: nat) \<and> (of_char c :: nat) \<le> 122)"

definition isWinAbs :: "string \<Rightarrow> bool" where
  \<comment> \<open>\<open>/^[a-zA-Z]:[\/]/.test(cleaned)\<close>\<close>
  "isWinAbs s \<longleftrightarrow> (case s of a # b # c # _ \<Rightarrow> isLetter a \<and> b = CHR '':'' \<and> c = CHR ''/''
                              | _ \<Rightarrow> False)"

definition pushAll :: "string list \<Rightarrow> string list" where
  \<comment> \<open>\<open>push\<close> drops a falsy (empty) path\<close>
  "pushAll ps = filter (\<lambda>p. p \<noteq> []) ps"

definition truthy :: "string option \<Rightarrow> string list" where
  "truthy g = (case g of None \<Rightarrow> [] | Some p \<Rightarrow> if p = [] then [] else [p])"

definition stripSlash :: "string \<Rightarrow> string" where
  \<comment> \<open>\<open>s.replace(/^\//, '')\<close>\<close>
  "stripSlash s = (case s of [] \<Rightarrow> [] | c # cs \<Rightarrow> if c = CHR ''/'' then cs else s)"

definition candidates :: "host \<Rightarrow> string \<Rightarrow> string \<Rightarrow> string option \<Rightarrow> string \<Rightarrow> string list" where
  "candidates h fromDir modRoot gameDataRoot cleaned =
     (if isWinAbs cleaned then pushAll [cleaned]
      else if startsWith cleaned ''/'' then
        pushAll ([path_join h modRoot (stripSlash cleaned)]
                 @ map (\<lambda>g. path_join h g (stripSlash cleaned)) (truthy gameDataRoot))
      else
        pushAll ((if startsWith cleaned ''./'' \<or> startsWith cleaned ''../''
                  then [path_resolve h fromDir cleaned] else [])
                 @ [path_resolve h fromDir cleaned]
                 @ [path_join h modRoot cleaned]
                 @ map (\<lambda>g. path_join h g cleaned) (truthy gameDataRoot)))"

definition fallback :: "host \<Rightarrow> string \<Rightarrow> outcome" where
  \<comment> \<open>the search of the workspace by file name, and the warning\<close>
  "fallback h cleaned =
     (let base = path_basename h (stripSlash cleaned)
      in if base = [] then NotFound cleaned
         else case findFiles h base of
                [] \<Rightarrow> NotFound cleaned
              | m # _ \<Rightarrow> Opened m)"

definition openResource :: "host \<Rightarrow> string \<Rightarrow> string \<Rightarrow> string option \<Rightarrow> string \<Rightarrow> outcome" where
  "openResource h fromDir modRoot gameDataRoot raw =
     (let cleaned = cleanRaw raw
      in if cleaned = [] then Ignored
         else case find (can_open h) (candidates h fromDir modRoot gameDataRoot cleaned) of
                Some p \<Rightarrow> Opened p
              | None \<Rightarrow> fallback h cleaned)"

section \<open>Predicates of the properties\<close>

text \<open>
  A line is indented by a unit when it is the unit, repeated some number of times, and
  then a text that starts with a character that is not white space.
\<close>

definition indented :: "string \<Rightarrow> string \<Rightarrow> bool" where
  "indented u l \<longleftrightarrow> (\<exists>k t. l = concat (replicate k u) @ t \<and> t \<noteq> [] \<and> \<not> is_space (hd t))"

definition kv_ok :: "string \<Rightarrow> KV \<Rightarrow> bool" where
  "kv_ok u e \<longleftrightarrow> (\<exists>k. kv_indentStr e = concat (replicate k u)) \<and> kv_key e \<noteq> []
                  \<and> is_alpha_us (hd (kv_key e))"

definition fmt_inv :: "FormatOpts \<Rightarrow> fstate \<Rightarrow> bool" where
  "fmt_inv opts st \<longleftrightarrow> 0 \<le> level st
     \<and> (\<forall>l \<in> set (out st). l = [] \<or> indented (indent opts) l)
     \<and> (\<forall>e \<in> set (group st). kv_ok (indent opts) e)"

text \<open>
  A text where each carriage return is followed at once by a line feed; a text that lacks
  a character; a state whose lines and pending entries lack it.
\<close>

fun cr_before_lf :: "string \<Rightarrow> bool" where
  "cr_before_lf [] = True"
| "cr_before_lf (c # cs) = ((c = CHR 0x0D \<longrightarrow> cs \<noteq> [] \<and> hd cs = CHR 0x0A) \<and> cr_before_lf cs)"

definition lacks :: "char \<Rightarrow> string \<Rightarrow> bool" where
  "lacks x s \<longleftrightarrow> x \<notin> set s"

definition lacks_inv :: "char \<Rightarrow> fstate \<Rightarrow> bool" where
  "lacks_inv x st \<longleftrightarrow> (\<forall>l \<in> set (out st). lacks x l)
     \<and> (\<forall>e \<in> set (group st).
           lacks x (kv_indentStr e) \<and> lacks x (kv_key e) \<and> lacks x (kv_value e))"

text \<open>
  A label shows an alpha component when it is a hex label of eight digits or a tuple of
  four components (three commas).
\<close>

definition alphaShown :: "string \<Rightarrow> bool" where
  "alphaShown l \<longleftrightarrow>
     (if startsWith l ''#'' then length l = 9 else count_list l (CHR '','') = 3)"

text \<open>
  A colour literal, as the colour engine matches it and gives its range to the picker: a
  hex code, \<open>#\<close> and six hex digits, with two more digits for the alpha or without them;
  or a tuple, in parentheses and separated by commas, of three colour components, with a
  fourth component for the alpha or without it, where a component is a number of the
  form \<open>[+-]?\d*\.?\d+\<close> with white space before and after it. A separator is a character
  that no number holds.
\<close>

datatype literal = HexLit string "string option" | TupleLit "(string \<times> string \<times> string) list"

definition is_number :: "string \<Rightarrow> bool" where
  "is_number s =
     (let r = (case s of [] \<Rightarrow> [] | c # cs \<Rightarrow> if c = CHR ''+'' \<or> c = CHR ''-'' then cs else s);
          t = dropWhile is_digit r
      in if t = [] then r \<noteq> []
         else hd t = CHR ''.'' \<and> tl t \<noteq> [] \<and> list_all is_digit (tl t))"

definition component :: "string \<times> string \<times> string \<Rightarrow> string" where
  "component p = (case p of (w, n, w') \<Rightarrow> w @ n @ w')"

definition component_ok :: "string \<times> string \<times> string \<Rightarrow> bool" where
  "component_ok p = (case p of (w, n, w') \<Rightarrow> list_all is_space w \<and> is_number n \<and> list_all is_space w')"

fun literalText :: "literal \<Rightarrow> string" where
  "literalText (HexLit h a) = ''#'' @ h @ (case a of None \<Rightarrow> [] | Some x \<Rightarrow> x)"
| "literalText (TupleLit cs) = ''('' @ join '','' (map component cs) @ '')''"

fun wellFormed :: "literal \<Rightarrow> bool" where
  "wellFormed (HexLit h a) \<longleftrightarrow> length h = 6 \<and> list_all is_hex h
     \<and> (case a of None \<Rightarrow> True | Some x \<Rightarrow> length x = 2 \<and> list_all is_hex x)"
| "wellFormed (TupleLit cs) \<longleftrightarrow> (length cs = 3 \<or> length cs = 4) \<and> list_all component_ok cs"

fun hasAlpha :: "literal \<Rightarrow> bool" where
  "hasAlpha (HexLit h a) \<longleftrightarrow> a \<noteq> None"
| "hasAlpha (TupleLit cs) \<longleftrightarrow> length cs = 4"

definition is_sep :: "char \<Rightarrow> bool" where
  "is_sep c \<longleftrightarrow> \<not> is_digit c \<and> c \<noteq> CHR ''+'' \<and> c \<noteq> CHR ''-'' \<and> c \<noteq> CHR ''.''"


text \<open>
  For the second pass of the formatter over its own output: the shape of a key that the
  key/value pattern matches (\<open>key_shape\<close>) and a value as the formatter leaves it
  (\<open>val_ok\<close>); a pending entry of the current level (\<open>entry_ok\<close>) and the invariant of the
  loop on the pending group (\<open>run_inv\<close>); the lines written once the pending group is
  flushed (\<open>view\<close>); the relation between the state of a pass and the state of a second
  pass that has read the lines the first has written (\<open>sim\<close>, \<open>caughtUp\<close>); the options
  for which the second pass changes nothing (\<open>good_opts\<close>); the text of a written entry
  after its indentation (\<open>pad\<close>, \<open>body\<close>), and the value of an entry that opens a block,
  as it is written (\<open>braceValue\<close>); a line that does not end with a carriage return
  (\<open>ends_ok\<close>, \<open>ends_inv\<close>).
\<close>

definition key_shape :: "string \<Rightarrow> bool" where
  "key_shape k \<longleftrightarrow>
     (\<exists>c k0. is_alpha_us c \<and> (\<forall>y \<in> set k0. is_key_char y)
             \<and> (k = c # k0 \<or> k = c # k0 @ ''[]''))"

definition val_ok :: "FormatOpts \<Rightarrow> string \<Rightarrow> bool" where
  "val_ok opts v \<longleftrightarrow> (\<forall>c \<in> set v. \<not> is_line_term c) \<and> trim v = v \<and> normValue opts v = v"

definition entry_ok :: "FormatOpts \<Rightarrow> int \<Rightarrow> KV \<Rightarrow> bool" where
  "entry_ok opts lv e \<longleftrightarrow>
     kv_indentStr e = repeat (indent opts) lv \<and> kv_level e = lv \<and> key_shape (kv_key e)
     \<and> val_ok opts (kv_value e) \<and> \<not> endsWith (kv_value e) ''{''"

definition run_inv :: "FormatOpts \<Rightarrow> fstate \<Rightarrow> bool" where
  "run_inv opts st \<longleftrightarrow>
     (\<forall>e \<in> set (group st). entry_ok opts (level st) e)
     \<and> (group st \<noteq> [] \<longrightarrow> groupLevel st = Some (level st) \<and> emptyRun st = 0)
     \<and> (group st = [] \<longrightarrow> groupLevel st = None)"

definition view :: "FormatOpts \<Rightarrow> fstate \<Rightarrow> string list" where
  "view opts st = out (flushGroup opts st)"

definition sim :: "FormatOpts \<Rightarrow> fstate \<Rightarrow> fstate \<Rightarrow> bool" where
  "sim opts st1 st2 \<longleftrightarrow>
     level st2 = level st1 \<and> (alignColons opts \<longrightarrow> group st2 = [])
     \<and> (group st1 = [] \<and> emptyRun st1 < maxEmptyLines opts \<longrightarrow> emptyRun st2 = emptyRun st1)"

definition good_opts :: "FormatOpts \<Rightarrow> bool" where
  "good_opts opts \<longleftrightarrow>
     (\<forall>c \<in> set (indent opts). is_space c \<and> c \<noteq> CHR 0x0A)
     \<and> (1 \<le> maxEmptyLines opts \<or> \<not> alignColons opts)"

definition pad :: "bool \<Rightarrow> nat \<Rightarrow> string \<Rightarrow> string" where
  "pad al w k = (if al then replicate (w - length k) (CHR '' '') else [])"

definition body :: "bool \<Rightarrow> nat \<Rightarrow> string \<Rightarrow> string \<Rightarrow> string" where
  "body al w k v = k @ pad al w k @ CHR '':'' # (if v = [] then [] else CHR '' '' # v)"

definition braceValue :: "string \<Rightarrow> string" where
  "braceValue v = (if butlast v = [] then ''{'' else trimEnd (butlast v) @ '' {'')"

definition caughtUp :: "FormatOpts \<Rightarrow> fstate \<Rightarrow> fstate \<Rightarrow> fstate \<Rightarrow> string list \<Rightarrow> bool" where
  "caughtUp opts st1 st2 st1' xs \<longleftrightarrow>
     out st1' = out st1 @ xs
     \<and> run_inv opts (foldl (step opts) st2 xs)
     \<and> sim opts st1' (foldl (step opts) st2 xs)
     \<and> view opts (foldl (step opts) st2 xs) = view opts st2 @ xs"

definition ends_ok :: "string \<Rightarrow> bool" where
  "ends_ok l \<longleftrightarrow> l = [] \<or> last l \<noteq> CHR 0x0D"

definition ends_inv :: "fstate \<Rightarrow> bool" where
  "ends_inv st \<longleftrightarrow> (\<forall>l \<in> set (out st). ends_ok l)"

section \<open>Facts about trimming\<close>

lemma trimEnd_decomp: "\<exists>w. s = trimEnd s @ w \<and> (\<forall>c \<in> set w. is_space c)"
proof -
  have "rev s = takeWhile is_space (rev s) @ dropWhile is_space (rev s)" by simp
  then have "s = rev (dropWhile is_space (rev s)) @ rev (takeWhile is_space (rev s))"
    by (metis rev_append rev_rev_ident)
  moreover have "\<forall>c \<in> set (rev (takeWhile is_space (rev s))). is_space c"
    by (auto dest: set_takeWhileD)
  ultimately show ?thesis unfolding trimEnd_def by blast
qed

lemma trimEnd_Nil [simp]: "trimEnd [] = []"
  by (simp add: trimEnd_def)

lemma trimEnd_snoc: "trimEnd (s @ [c]) = (if is_space c then trimEnd s else s @ [c])"
  by (simp add: trimEnd_def)

lemma trimEnd_append_spaces: "\<forall>c \<in> set w. is_space c \<Longrightarrow> trimEnd (s @ w) = trimEnd s"
proof (induction w rule: rev_induct)
  case Nil
  then show ?case by simp
next
  case (snoc x xs)
  have "trimEnd (s @ xs @ [x]) = trimEnd ((s @ xs) @ [x])" by simp
  also have "\<dots> = trimEnd (s @ xs)" using snoc.prems by (simp only: trimEnd_snoc) simp
  finally show ?case using snoc by simp
qed

lemma trimEnd_eq_Nil: "trimEnd s = [] \<longleftrightarrow> (\<forall>c \<in> set s. is_space c)"
  by (simp add: trimEnd_def dropWhile_eq_Nil_conv)

lemma trim_eq_Nil: "trim s = [] \<longleftrightarrow> (\<forall>c \<in> set s. is_space c)"
proof
  assume "trim s = []"
  then have "\<forall>c \<in> set (dropWhile is_space s). is_space c"
    by (simp add: trim_def trimStart_def trimEnd_eq_Nil)
  then have "dropWhile is_space s = []"
    by (metis hd_dropWhile hd_in_set)
  then show "\<forall>c \<in> set s. is_space c" by (simp add: dropWhile_eq_Nil_conv)
next
  assume "\<forall>c \<in> set s. is_space c"
  then have "dropWhile is_space s = []" by (simp add: dropWhile_eq_Nil_conv)
  then show "trim s = []" unfolding trim_def trimStart_def by (simp only: trimEnd_Nil)
qed

lemma trimEnd_id: "s \<noteq> [] \<Longrightarrow> \<not> is_space (last s) \<Longrightarrow> trimEnd s = s"
  by (cases s rule: rev_cases) (simp_all add: trimEnd_snoc)

lemma trimEnd_last: "trimEnd s \<noteq> [] \<Longrightarrow> \<not> is_space (last (trimEnd s))"
  unfolding trimEnd_def
  by (metis (full_types) dropWhile_eq_Nil_conv hd_dropWhile last_rev rev_is_Nil_conv)

lemma trimEnd_Cons_nonspace: "\<not> is_space c \<Longrightarrow> trimEnd (c # s) = c # trimEnd s"
proof (induction s rule: rev_induct)
  case Nil
  then show ?case by (simp add: trimEnd_def)
next
  case (snoc x xs)
  have "trimEnd (c # xs @ [x]) = trimEnd ((c # xs) @ [x])" by simp
  also have "\<dots> = (if is_space x then trimEnd (c # xs) else (c # xs) @ [x])"
    by (rule trimEnd_snoc)
  finally show ?case using snoc by (simp add: trimEnd_snoc)
qed

lemma trim_Nil [simp]: "trim [] = []"
  by (simp add: trim_def trimStart_def)

lemma trim_hd: "trim s \<noteq> [] \<Longrightarrow> \<not> is_space (hd (trim s))"
proof -
  assume a: "trim s \<noteq> []"
  have d: "dropWhile is_space s \<noteq> []"
  proof
    assume "dropWhile is_space s = []"
    then have "trim s = []" unfolding trim_def trimStart_def by (simp only: trimEnd_Nil)
    with a show False by simp
  qed
  then obtain c r where cr: "dropWhile is_space s = c # r" by (cases "dropWhile is_space s") auto
  then have "\<not> is_space c" by (metis hd_dropWhile list.sel(1) d)
  then show ?thesis using cr by (simp add: trim_def trimStart_def trimEnd_Cons_nonspace)
qed

lemma trim_last: "trim s \<noteq> [] \<Longrightarrow> \<not> is_space (last (trim s))"
  unfolding trim_def by (rule trimEnd_last)

lemma trim_start_decomp: "trim s \<noteq> [] \<Longrightarrow> \<exists>w. dropWhile is_space s = trim s @ w"
  unfolding trim_def trimStart_def using trimEnd_decomp by blast

lemma trim_id: "s \<noteq> [] \<Longrightarrow> \<not> is_space (hd s) \<Longrightarrow> \<not> is_space (last s) \<Longrightarrow> trim s = s"
  by (cases s) (simp_all add: trim_def trimStart_def trimEnd_id)

lemma trim_idem [simp]: "trim (trim s) = trim s"
  by (cases "trim s = []") (simp_all add: trim_id trim_hd trim_last)

lemma trim_prepend_spaces: "\<forall>c \<in> set w. is_space c \<Longrightarrow> trim (w @ s) = trim s"
  by (simp add: trim_def trimStart_def dropWhile_append2 dropWhile_append)
   
lemma is_blank_space: "is_blank c \<Longrightarrow> is_space c"
  by (auto simp: is_blank_def is_space_def)

lemma stripBlanks_decomp: "\<exists>w. s = stripBlanks s @ w \<and> (\<forall>c \<in> set w. is_space c)"
proof -
  have "rev s = takeWhile is_blank (rev s) @ dropWhile is_blank (rev s)" by simp
  then have "s = rev (dropWhile is_blank (rev s)) @ rev (takeWhile is_blank (rev s))"
    by (metis rev_append rev_rev_ident)
  moreover have "\<forall>c \<in> set (rev (takeWhile is_blank (rev s))). is_space c"
    by (auto dest: set_takeWhileD is_blank_space)
  ultimately show ?thesis unfolding stripBlanks_def by blast
qed

lemma trimStart_append_nonempty:
  "dropWhile is_space (s @ w) = dropWhile is_space s @ w \<or> dropWhile is_space s = []"
  by (induction s) auto

lemma trim_append_spaces: "\<forall>c \<in> set w. is_space c \<Longrightarrow> trim (s @ w) = trim s"
proof -
  assume w: "\<forall>c \<in> set w. is_space c"
  show ?thesis
  proof (cases "dropWhile is_space s = []")
    case True
    then have s: "\<forall>c \<in> set s. is_space c" by (simp add: dropWhile_eq_Nil_conv)
    with w have "\<forall>c \<in> set (s @ w). is_space c" by auto
    then have "trim (s @ w) = []" by (simp only: trim_eq_Nil)
    moreover have "trim s = []" using s by (simp only: trim_eq_Nil)
    ultimately show ?thesis by simp
  next
    case False
    then have "dropWhile is_space (s @ w) = dropWhile is_space s @ w"
      using trimStart_append_nonempty by blast
    then show ?thesis using w by (simp add: trim_def trimStart_def trimEnd_append_spaces)
  qed
qed

lemma trim_stripBlanks [simp]: "trim (stripBlanks s) = trim s"
proof -
  obtain w where "s = stripBlanks s @ w" "\<forall>c \<in> set w. is_space c"
    using stripBlanks_decomp by blast
  then show ?thesis by (metis trim_append_spaces)
qed

lemma trim_raw [simp]:
  "trim (if trimTrailingWhitespace opts then stripBlanks line else line) = trim line"
  by simp

section \<open>Facts about the step of the formatter\<close>

lemma kvRe_not_alpha: "\<not> is_alpha_us c \<Longrightarrow> kvRe (c # r) = None"
  by (simp add: kvRe_def)

lemma keyRe_not_alpha:
  assumes "trim line = c # r" "\<not> is_alpha_us c"
  shows "keyRe line = None"
proof -
  obtain w where "dropWhile is_space line = trim line @ w"
    using trim_start_decomp [of line] assms(1) by auto
  then show ?thesis using assms by (simp add: keyRe_def)
qed

lemma step_blank: "trim line = [] \<Longrightarrow> step opts st line = blankStep opts st"
  by (simp add: step_def Let_def del: trim_stripBlanks)

lemma step_passthrough:
  assumes "trim line \<noteq> []" "\<not> startsWith (trim line) ''}''"
    and "trim line \<noteq> ''SiiNunit''" "trim line \<noteq> ''SiiNunit{''" "trim line \<noteq> ''SiiNunit {''"
    and "kvRe (trim line) = None"
  shows "step opts st line = passStep opts (trim line) (st\<lparr>emptyRun := 0\<rparr>)"
  using assms by (simp add: step_def Let_def dedent_def del: trim_stripBlanks)

section \<open>Properties\<close>

subsection \<open>The root declaration line\<close>

text \<open>
  C3. A line that is a comment, a directive or an unrecognised line, the root declaration
  \<open>SiiNunit {\<close> included, keeps its trimmed content in the output. The formatter does not
  do so for \<open>SiiNunit {\<close>: it writes \<open>SiiNunit\<close>, the opening brace is lost and the level
  is not raised, while the closing brace of the unit stays.
\<close>

theorem siinunit_brace_dropped:
  "formatScsText (''SiiNunit {'' @ [CHR 0x0A] @ ''}'') default_opts
     = ''SiiNunit'' @ [CHR 0x0A] @ ''}''"
  by code_simp

subsection \<open>Scope of the key validator\<close>

text \<open>
  C7. A document whose extension, in lower case, is not \<open>.sii\<close> has no finding, whatever
  the vocabulary and the lines are: for a document of the language the validator sets
  the empty list, for any other document it sets nothing.
\<close>

theorem validate_scoping:
  assumes "toLowerCase (extname (fileName doc)) \<noteq> ''.sii''"
  shows "validate extname enableDiagnostics vocabulary doc
           = (if languageId doc = ''scs'' then Some [] else None)"
  using assms by (simp add: validate_def)

theorem validate_scoping_witness:
  "toLowerCase (drop 8 (fileName \<lparr>languageId = ''scs'', fileName = ''truck/a.SUI'',
                                   doc_lines = [''bogus_key: 1'']\<rparr>)) \<noteq> ''.sii''
   \<and> validate (drop 8) True {}
         \<lparr>languageId = ''scs'', fileName = ''truck/a.SUI'', doc_lines = [''bogus_key: 1'']\<rparr>
       = Some []"
  using validate_scoping [of "drop 8"
      "\<lparr>languageId = ''scs'', fileName = ''truck/a.SUI'', doc_lines = [''bogus_key: 1'']\<rparr>"
      True "{}"]
  by (simp add: toLowerCase_def toLower_def)

subsection \<open>Tuple matches that do not parse\<close>

lemma tupleInfo_not_finite: "\<not> allFinite m \<Longrightarrow> tupleInfo n m = []"
  by (auto simp: allFinite_def tupleInfo_def tupleColor_def split: option.splits)

lemma lineColors_drop:
  assumes "\<not> allFinite m" "tupleExec line = ms1 @ m # ms2"
  shows "lineColors tupleExec hexExec = lineColors (tupleExec(line := ms1 @ ms2)) hexExec"
proof (intro ext)
  fix n l
  show "lineColors tupleExec hexExec n l = lineColors (tupleExec(line := ms1 @ ms2)) hexExec n l"
  proof (cases "l = line")
    case True
    then show ?thesis
      using assms by (simp add: lineColors_def tupleInfo_not_finite split: option.splits)
  next
    case False
    then show ?thesis by (simp add: lineColors_def split: option.splits)
  qed
qed

text \<open>
  C8. On a line, a tuple match with a component that is not a finite number gives no colour
  information, and the result for the document is the one the engine gives when that
  match is taken out of the matches of its line: the matches before and after it, the hex
  matches and the other lines are treated the same.
\<close>

theorem skip_non_finite:
  assumes "\<not> allFinite m" and "tupleExec line = ms1 @ m # ms2"
  shows "tupleInfo n m = [] \<and>
         provideDocumentColors en tupleExec hexExec ls
           = provideDocumentColors en (tupleExec(line := ms1 @ ms2)) hexExec ls"
  using assms lineColors_drop [of m tupleExec line ms1 ms2 hexExec]
  by (simp add: provideDocumentColors_def tupleInfo_not_finite)

theorem skip_non_finite_witness:
  "\<not> allFinite \<lparr>tm_index = 12, tm_length = 317, tm_r = None, tm_g = Some 0, tm_b = Some 0, tm_a = None\<rparr>
   \<and> (\<lambda>l. [\<lparr>tm_index = 12, tm_length = 317, tm_r = None, tm_g = Some 0, tm_b = Some 0, tm_a = None\<rparr>,
            \<lparr>tm_index = 330, tm_length = 9, tm_r = Some 1, tm_g = Some 0, tm_b = Some 0, tm_a = None\<rparr>])
        (''base_color: ('' @ replicate 309 (CHR ''9'') @ '', 0, 0) (1, 0, 0)'')
      = [] @ \<lparr>tm_index = 12, tm_length = 317, tm_r = None, tm_g = Some 0, tm_b = Some 0, tm_a = None\<rparr>
           # [\<lparr>tm_index = 330, tm_length = 9, tm_r = Some 1, tm_g = Some 0, tm_b = Some 0, tm_a = None\<rparr>]
   \<and> provideDocumentColors True
        (\<lambda>l. [\<lparr>tm_index = 12, tm_length = 317, tm_r = None, tm_g = Some 0, tm_b = Some 0, tm_a = None\<rparr>,
            \<lparr>tm_index = 330, tm_length = 9, tm_r = Some 1, tm_g = Some 0, tm_b = Some 0, tm_a = None\<rparr>])
        (\<lambda>l. []) [''base_color: ('' @ replicate 309 (CHR ''9'') @ '', 0, 0) (1, 0, 0)'']
      = [\<lparr>ci_line = 0, ci_start = 330, ci_end = 339,
          ci_color = \<lparr>red = 1, green = 0, blue = 0, alpha = 1\<rparr>\<rparr>]"
  using skip_non_finite [of "\<lparr>tm_index = 12, tm_length = 317, tm_r = None, tm_g = Some 0, tm_b = Some 0, tm_a = None\<rparr>"
     "(\<lambda>l. [\<lparr>tm_index = 12, tm_length = 317, tm_r = None, tm_g = Some 0, tm_b = Some 0, tm_a = None\<rparr>,
            \<lparr>tm_index = 330, tm_length = 9, tm_r = Some 1, tm_g = Some 0, tm_b = Some 0, tm_a = None\<rparr>])"
     "''base_color: ('' @ replicate 309 (CHR ''9'') @ '', 0, 0) (1, 0, 0)''" "[]"
     "[\<lparr>tm_index = 330, tm_length = 9, tm_r = Some 1, tm_g = Some 0, tm_b = Some 0, tm_a = None\<rparr>]"
     0 True "\<lambda>l. []" "[''base_color: ('' @ replicate 309 (CHR ''9'') @ '', 0, 0) (1, 0, 0)'']"]
  apply (simp add: allFinite_def)
  apply (simp add: provideDocumentColors_def lineColors_def isCommentOrEmpty_def trim_def trimStart_def trimEnd_Cons_nonspace is_space_def startsWith_def keyRe_def is_alpha_us_def is_word_def is_digit_def isColorKey_def toLowerCase_def toLower_def tupleInfo_def tupleColor_def clamp01_def Let_def)
  done

subsection \<open>Rounding of doubles\<close>

text \<open>
  A double is its own rounding, a third is rounded in the last place, and an integer
  halfway between two doubles goes to the one with the even last place. The literal
  \<open>0.999\<close> denotes the double of \<open>threshold999\<close>. The double next to 0.3, times
  255, is below 76.5 before the rounding of the product and 76.5 after it, so it is
  written as 77. The literal \<open>1.0000000000000001\<close> denotes the double 1, which is not
  above 1.
\<close>

lemma nearest_examples:
  "nearest (1 / 2) = 1 / 2 \<and> nearest 255 = 255
   \<and> nearest (1 / 3) = 6004799503160661 / 18014398509481984
   \<and> nearest (- (1 / 3)) = - (6004799503160661 / 18014398509481984)
   \<and> nearest 9007199254740993 = 9007199254740992
   \<and> nearest 9007199254740995 = 9007199254740996"
  by code_simp

lemma threshold999_double: "threshold999 = nearest (999 / 1000)"
  by code_simp

lemma to255_three_tenths:
  "nearest (3 / 10) * 255 < 153 / 2 \<and> mulD (nearest (3 / 10)) 255 = 153 / 2
   \<and> to255 (nearest (3 / 10)) = 77"
  by code_simp

lemma parseFloat_rounds:
  "parseFloat ''1.0000000000000001'' = Num 1 \<and> \<not> has255 ''(1.0000000000000001, 0, 0)''"
  by code_simp

subsection \<open>Scale of a tuple\<close>

lemma ev_div255:
  "divD (1 / 2) 255 = 282578800148737 / 144115188075855872"
  "divD 0 255 = 0"
  "divD 1 255 = 282578800148737 / 72057594037927936"
  "divD 2 255 = 282578800148737 / 36028797018963968"
  "divD 128 255 = 282578800148737 / 562949953421312"
  "divD 255 255 = 1"
  by code_simp+

text \<open>
  C2, as stated: the scale of a tuple depends on its first three components only. The
  tuple \<open>(0.5, 0, 1.0, 2)\<close> has no component above 1 among the first three, and its
  components are divided by 255 all the same, since its alpha is above 1.
\<close>

theorem scale_uses_alpha:
  "\<not> (1 < (1/2 :: rat) \<or> 1 < (0 :: rat) \<or> 1 < (1 :: rat)) \<and>
   tupleColor \<lparr>tm_index = 12, tm_length = 16, tm_r = Some (1/2), tm_g = Some 0,
                tm_b = Some 1, tm_a = Some (Some 2)\<rparr>
     = Some \<lparr>red = 282578800148737 / 144115188075855872, green = 0,
             blue = 282578800148737 / 72057594037927936,
             alpha = 282578800148737 / 36028797018963968\<rparr>"
  by (simp add: tupleColor_def clamp01_def ev_div255)

text \<open>
  C2, amended: the scale depends on the three colour components and, when the tuple has
  one, on its alpha. If one of these is above 1, each colour component and the alpha that
  the tuple has are divided by 255, as doubles, and otherwise they are taken as they are
  (a tuple with no alpha then has the alpha 1); each channel of the result is brought
  into the interval from 0 to 1. So \<open>(128, 0, 255)\<close> gives the red 0.50196... (0.502 to three
  places), the green 0 and the blue 1, and \<open>(0.5, 0, 1.0)\<close> is unchanged.
\<close>

theorem scale_inference:
  assumes "tm_r m = Some r" "tm_g m = Some g" "tm_b m = Some b"
    and "tm_a m = None \<or> tm_a m = Some (Some a)"
  shows "\<exists>c. tupleColor m = Some c \<and>
     (let s = (1 < r \<or> 1 < g \<or> 1 < b \<or> (tm_a m \<noteq> None \<and> 1 < a));
          norm = (\<lambda>v. min 1 (max 0 (if s then divD v 255 else v)))
      in red c = norm r \<and> green c = norm g \<and> blue c = norm b
         \<and> (tm_a m \<noteq> None \<longrightarrow> alpha c = norm a)
         \<and> (tm_a m = None \<and> \<not> s \<longrightarrow> alpha c = 1))
     \<and> 0 \<le> red c \<and> red c \<le> 1 \<and> 0 \<le> green c \<and> green c \<le> 1
     \<and> 0 \<le> blue c \<and> blue c \<le> 1 \<and> 0 \<le> alpha c \<and> alpha c \<le> 1"
proof -
  have n: "\<And>v. clamp01 v = min 1 (max 0 v)"
    by (auto simp: clamp01_def)
  have b: "\<And>v. 0 \<le> clamp01 v \<and> clamp01 v \<le> 1"
    by (auto simp: clamp01_def)
  define a' where "a' = (if tm_a m = None then 1 else a)"
  define s where "s \<longleftrightarrow> 1 < r \<or> 1 < g \<or> 1 < b \<or> 1 < a'"
  have s: "s \<longleftrightarrow> 1 < r \<or> 1 < g \<or> 1 < b \<or> (tm_a m \<noteq> None \<and> 1 < a)"
    by (simp add: s_def a'_def)
  have m: "max (max (max r g) b) a' > 1 \<longleftrightarrow> s"
    by (simp add: s_def less_max_iff_disj)
  have "(case tm_a m of None \<Rightarrow> Some 1 | Some x \<Rightarrow> x) = Some a'"
    using assms(4) by (auto simp: a'_def)
  then have tc: "tupleColor m = Some \<lparr>red = clamp01 (if s then divD r 255 else r),
        green = clamp01 (if s then divD g 255 else g),
        blue = clamp01 (if s then divD b 255 else b),
        alpha = clamp01 (if s then divD a' 255 else a')\<rparr>"
    using assms(1-3) by (simp add: tupleColor_def m)
  have 1: "tm_a m \<noteq> None \<longrightarrow> a' = a" and 2: "tm_a m = None \<and> \<not> s \<longrightarrow> clamp01 a' = 1"
    by (simp_all add: a'_def clamp01_def)
  show ?thesis
    unfolding tc Let_def s [symmetric]
    using 1 2 b by (simp add: n [symmetric])
qed

theorem scale_inference_witness:
  "map_option red (tupleColor \<lparr>tm_index = 12, tm_length = 13, tm_r = Some 128, tm_g = Some 0,
                tm_b = Some 255, tm_a = None\<rparr>) = Some (282578800148737 / 562949953421312)
   \<and> map_option green (tupleColor \<lparr>tm_index = 12, tm_length = 13, tm_r = Some 128, tm_g = Some 0,
                tm_b = Some 255, tm_a = None\<rparr>) = Some 0
   \<and> map_option blue (tupleColor \<lparr>tm_index = 12, tm_length = 13, tm_r = Some 128, tm_g = Some 0,
                tm_b = Some 255, tm_a = None\<rparr>) = Some 1
   \<and> \<bar>282578800148737 / 562949953421312 - 502 / 1000\<bar> < (1 / 1000 :: rat)
   \<and> tupleColor \<lparr>tm_index = 12, tm_length = 13, tm_r = Some (1/2), tm_g = Some 0,
                tm_b = Some 1, tm_a = None\<rparr>
     = Some \<lparr>red = 1/2, green = 0, blue = 1, alpha = 1\<rparr>
   \<and> tupleColor \<lparr>tm_index = 12, tm_length = 18, tm_r = Some 128, tm_g = Some 0,
                tm_b = Some 255, tm_a = Some (Some 255)\<rparr>
     = Some \<lparr>red = 282578800148737 / 562949953421312, green = 0, blue = 1, alpha = 1\<rparr>"
  using scale_inference [of "\<lparr>tm_index = 12, tm_length = 13, tm_r = Some 128, tm_g = Some 0,
                tm_b = Some 255, tm_a = None\<rparr>" 128 0 255 1]
    scale_inference [of "\<lparr>tm_index = 12, tm_length = 13, tm_r = Some (1/2), tm_g = Some 0,
                tm_b = Some 1, tm_a = None\<rparr>" "1/2" 0 1 1]
    scale_inference [of "\<lparr>tm_index = 12, tm_length = 18, tm_r = Some 128, tm_g = Some 0,
                tm_b = Some 255, tm_a = Some (Some 255)\<rparr>" 128 0 255 255]
  by (auto simp: ev_div255)

subsection \<open>Comment lines\<close>

text \<open>
  C5, as stated: no analysis applies to a line whose trimmed form starts with \<open>//\<close>, \<open>#\<close>,
  \<open>/*\<close>, \<open>*\<close> or \<open>*/\<close>. The formatter tests such a line for an opening brace at its end,
  as it does for every line that it passes through: after the comment \<open>// note {\<close> the
  next line is indented by one unit, after \<open>// note\<close> it is not.
\<close>

theorem comment_brace_raises_level:
  "startsWith (trim ''// note {'') ''//''
   \<and> formatScsText (''// note {'' @ [CHR 0x0A] @ ''a: 1'') default_opts
       = ''// note {'' @ [CHR 0x0A] @ [CHR 0x09] @ ''a: 1''
   \<and> formatScsText (''// note'' @ [CHR 0x0A] @ ''a: 1'') default_opts
       = ''// note'' @ [CHR 0x0A] @ ''a: 1''"
  by code_simp

text \<open>
  C5, amended: for a line whose trimmed form starts with \<open>//\<close>, \<open>#\<close>, \<open>/*\<close>, \<open>*\<close> or \<open>*/\<close>,
  the colour engine gives no colour and the validator no finding. The formatter writes
  the lines of the pending group, then the trimmed line, unchanged, after the
  indentation of the current level, and leaves no pending group; the level stays as it
  is unless the trimmed line ends with an opening brace, and then it rises by one. For a
  document that ends with such a line, the output is the output for the lines before
  it, and then that one line.
\<close>

theorem comment_lines:
  assumes "startsWith (trim line) ''//'' \<or> startsWith (trim line) ''#''
         \<or> startsWith (trim line) ''/*'' \<or> startsWith (trim line) ''*''
         \<or> startsWith (trim line) ''*/''"
  shows "lineColors tupleExec hexExec n line = []
       \<and> validateLine vocabulary n line = []
       \<and> out (step opts st line)
           = out st @ map (render (alignColons opts) (maxKey (group st))) (group st)
             @ [repeat (indent opts) (level st) @ trim line]
       \<and> group (step opts st line) = []
       \<and> level (step opts st line)
           = (if endsWith (trim line) ''{'' then level st + 1 else level st)
       \<and> formatLines opts (ls @ [line])
           = formatLines opts ls
             @ [repeat (indent opts) (level (foldl (step opts) init_state ls)) @ trim line]"
proof -
  obtain c r where t: "trim line = c # r" and c: "c \<in> {CHR ''/'', CHR ''#'', CHR ''*''}"
    using assms by (cases "trim line") (auto simp: startsWith_def)
  from c have na: "\<not> is_alpha_us c" by (auto simp: is_alpha_us_def)
  have k: "keyRe line = None" using t na by (rule keyRe_not_alpha)
  have 1: "lineColors tupleExec hexExec n line = []" by (simp add: lineColors_def k)
  have 2: "validateLine vocabulary n line = []" by (simp add: validateLine_def k Let_def)
  have kv: "kvRe (trim line) = None" using t na by (simp add: kvRe_not_alpha)
  have "trim line \<noteq> []" "\<not> startsWith (trim line) ''}''"
    "trim line \<noteq> ''SiiNunit''" "trim line \<noteq> ''SiiNunit{''" "trim line \<noteq> ''SiiNunit {''"
    using t c by (auto simp: startsWith_def)
  then have s: "\<And>s. step opts s line = passStep opts (trim line) (s\<lparr>emptyRun := 0\<rparr>)"
    using kv by (rule step_passthrough)
  have f: "\<And>s. out (step opts s line)
           = out s @ map (render (alignColons opts) (maxKey (group s))) (group s)
             @ [repeat (indent opts) (level s) @ trim line]
       \<and> group (step opts s line) = []
       \<and> level (step opts s line)
           = (if endsWith (trim line) ''{'' then level s + 1 else level s)"
    unfolding s by (simp add: passStep_def openBlock_def push_def flushGroup_def)
  define s0 where "s0 = foldl (step opts) init_state ls"
  have "formatLines opts (ls @ [line]) = out (flushGroup opts (step opts s0 line))"
    by (simp add: formatLines_def s0_def)
  also have "\<dots> = out (step opts s0 line)"
    using f [of s0] by (simp add: flushGroup_def)
  also have "\<dots> = out (flushGroup opts s0) @ [repeat (indent opts) (level s0) @ trim line]"
    using f [of s0] by (simp add: flushGroup_def)
  finally have 4: "formatLines opts (ls @ [line])
           = formatLines opts ls
             @ [repeat (indent opts) (level (foldl (step opts) init_state ls)) @ trim line]"
    by (simp add: formatLines_def s0_def)
  from 1 2 f [of st] 4 show ?thesis by blast
qed

lemma ev_trim: "trim ''  # base_color: (1, 0, 0)'' = ''# base_color: (1, 0, 0)''"
  by (simp add: trim_def trimStart_def trimEnd_def is_space_def)

lemma ev_trim_note: "trim ''// note {'' = ''// note {''"
  by (simp add: trim_def trimStart_def trimEnd_def is_space_def)

lemma ev_open_brace:
  "formatLines default_opts [''{''] = [''{'']
   \<and> level (foldl (step default_opts) init_state [''{'']) = 1"
  by code_simp

theorem comment_lines_witness:
  "startsWith (trim ''  # base_color: (1, 0, 0)'') ''#''
   \<and> lineColors (\<lambda>l. [\<lparr>tm_index = 16, tm_length = 9, tm_r = Some 1, tm_g = Some 0,
                         tm_b = Some 0, tm_a = None\<rparr>]) (\<lambda>l. []) 3 ''  # base_color: (1, 0, 0)'' = []
   \<and> validateLine {} 3 ''  # base_color: (1, 0, 0)'' = []
   \<and> out (step default_opts
             \<lparr>level = 1, emptyRun = 0,
               group = [\<lparr>kv_indentStr = [CHR 0x09], kv_key = ''a'', kv_value = ''1'', kv_level = 1\<rparr>],
               groupLevel = Some 1, out = [''{'']\<rparr>
             ''  # base_color: (1, 0, 0)'')
       = [''{'', [CHR 0x09] @ ''a: 1'', [CHR 0x09] @ ''# base_color: (1, 0, 0)'']
   \<and> level (step default_opts
             \<lparr>level = 1, emptyRun = 0,
               group = [\<lparr>kv_indentStr = [CHR 0x09], kv_key = ''a'', kv_value = ''1'', kv_level = 1\<rparr>],
               groupLevel = Some 1, out = [''{'']\<rparr>
             ''  # base_color: (1, 0, 0)'') = 1
   \<and> startsWith (trim ''// note {'') ''//''
   \<and> level (step default_opts init_state ''// note {'') = 1
   \<and> formatLines default_opts [''{'', ''// note {''] = [''{'', [CHR 0x09] @ ''// note {'']"
  using comment_lines [of "''  # base_color: (1, 0, 0)''"
      "(\<lambda>l. [\<lparr>tm_index = 16, tm_length = 9, tm_r = Some 1, tm_g = Some 0,
                         tm_b = Some 0, tm_a = None\<rparr>])" "\<lambda>l. []" 3 "{}" default_opts
      "\<lparr>level = 1, emptyRun = 0,
               group = [\<lparr>kv_indentStr = [CHR 0x09], kv_key = ''a'', kv_value = ''1'', kv_level = 1\<rparr>],
               groupLevel = Some 1, out = [''{'']\<rparr>" "[]"]
    comment_lines [of "''// note {''" "\<lambda>l. []" "\<lambda>l. []" 0 "{}" default_opts init_state "[''{'']"]
  apply (simp only: ev_trim ev_trim_note ev_open_brace)
  apply (simp add: startsWith_def endsWith_def init_state_def render_def
      default_opts_def repeat_def maxKey_def padEnd_def trimEnd_def is_space_def suffix_to_prefix)
  done

subsection \<open>Candidates of a relative path\<close>

text \<open>
  C6, as stated: every raw path that is neither absolute with a drive letter nor starts
  with a slash has the candidates listed below, probed in order. The empty raw string is
  such a path and has no candidate at all: the command returns before it builds the list,
  even where every path would open.
\<close>

theorem empty_raw_ignored:
  "openResource \<lparr>path_resolve = (\<lambda>d p. d @ ''/'' @ p), path_join = (\<lambda>d p. d @ ''/'' @ p),
       path_basename = (\<lambda>p. p), can_open = (\<lambda>p. True), findFiles = (\<lambda>b. [])\<rparr>
     ''/mods/x/def'' ''/mods/x'' None [] = Ignored"
  by (simp add: openResource_def cleanRaw_def)

text \<open>
  C6, amended: the raw string is first cleaned (one quote taken off at each end), and for
  every cleaned path that is not empty, not absolute with a drive letter and does not
  start with a slash the candidates are: the cleaned path resolved against the directory
  of the source, twice when the cleaned path starts with \<open>./\<close> or \<open>../\<close>, then the
  mod root joined with the cleaned path, then the game data root joined with it when one
  is configured. They are probed in this order and the first that opens is the result;
  when none does, the search by file name follows. (The functions of the platform return
  a path that is not empty.)
\<close>

theorem relative_candidates:
  assumes "cleaned = cleanRaw raw" and "cleaned \<noteq> []"
    and "\<not> isWinAbs cleaned" and "\<not> startsWith cleaned ''/''"
    and "path_resolve h fromDir cleaned \<noteq> []"
    and "path_join h modRoot cleaned \<noteq> []"
    and "\<forall>g. gameDataRoot = Some g \<longrightarrow> path_join h g cleaned \<noteq> []"
  shows "candidates h fromDir modRoot gameDataRoot cleaned
           = (if startsWith cleaned ''./'' \<or> startsWith cleaned ''../''
              then [path_resolve h fromDir cleaned, path_resolve h fromDir cleaned]
              else [path_resolve h fromDir cleaned])
             @ [path_join h modRoot cleaned]
             @ (case gameDataRoot of
                  None \<Rightarrow> []
                | Some g \<Rightarrow> if g = [] then [] else [path_join h g cleaned])
       \<and> openResource h fromDir modRoot gameDataRoot raw
           = (case find (can_open h) (candidates h fromDir modRoot gameDataRoot cleaned) of
                Some p \<Rightarrow> Opened p
              | None \<Rightarrow> fallback h cleaned)"
  using assms
  by (auto simp: candidates_def pushAll_def truthy_def openResource_def Let_def
           split: option.splits)

theorem relative_candidates_witness:
  "candidates \<lparr>path_resolve = (\<lambda>d p. d @ ''/'' @ p), path_join = (\<lambda>d p. d @ ''/'' @ p),
       path_basename = (\<lambda>p. p), can_open = (\<lambda>p. p = ''/data/./a.sui''), findFiles = (\<lambda>b. [])\<rparr>
     ''/mods/x/def'' ''/mods/x'' (Some ''/data'') ''./a.sui''
     = [''/mods/x/def/./a.sui'', ''/mods/x/def/./a.sui'', ''/mods/x/./a.sui'', ''/data/./a.sui'']
   \<and> openResource \<lparr>path_resolve = (\<lambda>d p. d @ ''/'' @ p), path_join = (\<lambda>d p. d @ ''/'' @ p),
       path_basename = (\<lambda>p. p), can_open = (\<lambda>p. p = ''/data/./a.sui''), findFiles = (\<lambda>b. [])\<rparr>
     ''/mods/x/def'' ''/mods/x'' (Some ''/data'') ([CHR 0x22] @ ''./a.sui'' @ [CHR 0x22])
     = Opened ''/data/./a.sui''"
  using relative_candidates [of "''./a.sui''" "[CHR 0x22] @ ''./a.sui'' @ [CHR 0x22]"
     "\<lparr>path_resolve = (\<lambda>d p. d @ ''/'' @ p), path_join = (\<lambda>d p. d @ ''/'' @ p),
       path_basename = (\<lambda>p. p), can_open = (\<lambda>p. p = ''/data/./a.sui''), findFiles = (\<lambda>b. [])\<rparr>"
     "''/mods/x/def''" "''/mods/x''" "Some ''/data''"]
  by (simp add: cleanRaw_def is_quote_def isWinAbs_def startsWith_def)

subsection \<open>Level and indentation\<close>

lemma trimEnd_Cons: "trimEnd (y # s) = (if trimEnd s = [] \<and> is_space y then [] else y # trimEnd s)"
proof (induction s rule: rev_induct)
  case Nil
  then show ?case by (simp add: trimEnd_def)
next
  case (snoc x xs)
  have "trimEnd (y # xs @ [x]) = trimEnd ((y # xs) @ [x])" by simp
  also have "\<dots> = (if is_space x then trimEnd (y # xs) else (y # xs) @ [x])"
    by (rule trimEnd_snoc)
  finally show ?case using snoc by (simp add: trimEnd_snoc)
qed

lemma trimEnd_append: "trimEnd s \<noteq> [] \<Longrightarrow> trimEnd (a @ s) = a @ trimEnd s"
  by (induction a) (simp_all add: trimEnd_Cons)

lemma alpha_not_space: "is_alpha_us c \<Longrightarrow> \<not> is_space c"
  by (auto simp: is_alpha_us_def is_space_def)

lemma render_shape:
  assumes "kv_key e \<noteq> []" "is_alpha_us (hd (kv_key e))"
  shows "\<exists>r. render al w e = kv_indentStr e @ hd (kv_key e) # r"
proof -
  obtain c k' where k: "kv_key e = c # k'" using assms(1) by (cases "kv_key e") auto
  with assms(2) have c: "\<not> is_space c" by (simp add: alpha_not_space)
  define x where "x = (if al then k' @ replicate (w - length (kv_key e)) (CHR '' '') else k') @ '': '' @ kv_value e"
  have "render al w e = trimEnd (kv_indentStr e @ c # x)"
    by (simp add: render_def padEnd_def k x_def)
  also have "\<dots> = kv_indentStr e @ c # trimEnd x"
    using c by (simp add: trimEnd_append trimEnd_Cons)
  finally show ?thesis using k by auto
qed

lemma fixBrace_shape:
  assumes "l = a @ c # r" "is_alpha_us c"
  shows "\<exists>r'. fixBrace l = a @ c # r'"
proof (cases "endsWith l ''{''")
  case False
  then show ?thesis using assms by (simp add: fixBrace_def)
next
  case True
  have cb: "c \<noteq> CHR ''{''" using assms(2) by (auto simp: is_alpha_us_def)
  have sp: "\<not> is_space c" using assms(2) by (rule alpha_not_space)
  from True have "last l = CHR ''{''" by (auto simp: endsWith_def suffix_def)
  with assms(1) cb have r: "r \<noteq> []" by (cases r) auto
  then have "butlast l = a @ c # butlast r" using assms(1) by (simp add: butlast_append)
  then have "trimEnd (butlast l) = a @ c # trimEnd (butlast r)"
    using sp by (simp add: trimEnd_append trimEnd_Cons)
  then show ?thesis using True by (simp add: fixBrace_def)
qed

lemma indentedI: "t \<noteq> [] \<Longrightarrow> \<not> is_space (hd t) \<Longrightarrow> indented u (concat (replicate k u) @ t)"
  unfolding indented_def by blast

lemma render_indented: "kv_ok u e \<Longrightarrow> indented u (render al w e)"
proof -
  assume a: "kv_ok u e"
  then obtain k where k: "kv_indentStr e = concat (replicate k u)" by (auto simp: kv_ok_def)
  from a obtain r where "render al w e = kv_indentStr e @ hd (kv_key e) # r"
    using render_shape [of e al w] by (auto simp: kv_ok_def)
  moreover have "\<not> is_space (hd (kv_key e))" using a by (simp add: kv_ok_def alpha_not_space)
  ultimately show ?thesis using k by (simp add: indentedI)
qed

lemma fixBrace_render_indented: "kv_ok u e \<Longrightarrow> indented u (fixBrace (render al w e))"
proof -
  assume a: "kv_ok u e"
  then obtain k where k: "kv_indentStr e = concat (replicate k u)" by (auto simp: kv_ok_def)
  from a obtain r where r: "render al w e = kv_indentStr e @ hd (kv_key e) # r"
    using render_shape [of e al w] by (auto simp: kv_ok_def)
  have al: "is_alpha_us (hd (kv_key e))" using a by (simp add: kv_ok_def)
  obtain r' where "fixBrace (render al w e) = kv_indentStr e @ hd (kv_key e) # r'"
    using fixBrace_shape [OF r al] by blast
  then show ?thesis using k al by (simp add: indentedI alpha_not_space)
qed

lemma flushGroup_fields [simp]:
  "level (flushGroup opts st) = level st"
  "emptyRun (flushGroup opts st) = emptyRun st"
  "group (flushGroup opts st) = []"
  "out (flushGroup opts st)
     = out st @ map (render (alignColons opts) (maxKey (group st))) (group st)"
  by (simp_all add: flushGroup_def)

lemma flushGroup_inv: "fmt_inv opts st \<Longrightarrow> fmt_inv opts (flushGroup opts st)"
  by (auto simp: fmt_inv_def render_indented)

lemma push_fields [simp]:
  "level (push l st) = level st" "emptyRun (push l st) = emptyRun st"
  "group (push l st) = group st" "groupLevel (push l st) = groupLevel st"
  "out (push l st) = out st @ [l]"
  by (simp_all add: push_def)

lemma openBlock_fields [simp]:
  "emptyRun (openBlock t st) = emptyRun st"
  "group (openBlock t st) = group st" "groupLevel (openBlock t st) = groupLevel st"
  "out (openBlock t st) = out st"
  "level (openBlock t st) = (if endsWith t ''{'' then level st + 1 else level st)"
  by (simp_all add: openBlock_def)

lemma dedent_fields [simp]:
  "emptyRun (dedent t st) = emptyRun st"
  "group (dedent t st) = group st" "groupLevel (dedent t st) = groupLevel st"
  "out (dedent t st) = out st"
  "level (dedent t st) = (if startsWith t ''}'' then max 0 (level st - 1) else level st)"
  by (simp_all add: dedent_def)

lemma addKV_fields [simp]:
  "level (addKV opts e st) = level st" "emptyRun (addKV opts e st) = emptyRun st"
  "group (addKV opts e st)
     = (if groupLevel st = None \<or> groupLevel st = Some (level st) then group st @ [e] else [e])"
  "out (addKV opts e st)
     = (if groupLevel st = None \<or> groupLevel st = Some (level st) then out st
        else out st @ map (render (alignColons opts) (maxKey (group st))) (group st))"
  by (auto simp: addKV_def Let_def)

lemma repeat_nat: "0 \<le> n \<Longrightarrow> repeat u n = concat (replicate (nat n) u)"
  by (simp add: repeat_def)

lemma blankStep_inv: "fmt_inv opts st \<Longrightarrow> fmt_inv opts (blankStep opts st)"
  by (auto simp: blankStep_def Let_def fmt_inv_def render_indented)

lemma passStep_inv:
  assumes "fmt_inv opts st" "t \<noteq> []" "\<not> is_space (hd t)"
  shows "fmt_inv opts (passStep opts t st)"
  using assms by (auto simp: passStep_def fmt_inv_def render_indented repeat_def indentedI)

lemma dedent_inv: "fmt_inv opts st \<Longrightarrow> fmt_inv opts (dedent t (st\<lparr>emptyRun := 0\<rparr>))"
  by (auto simp: dedent_def fmt_inv_def)

lemma sii_inv: "fmt_inv opts st \<Longrightarrow> fmt_inv opts (push ''SiiNunit'' (flushGroup opts st))"
proof -
  have "indented (indent opts) ''SiiNunit''"
    using indentedI [of "''SiiNunit''" "indent opts" 0] by (simp add: is_space_def)
  then show "fmt_inv opts st \<Longrightarrow> ?thesis"
    by (auto simp: fmt_inv_def render_indented)
qed

lemma fixLast_flush_out:
  assumes "group st = g @ [e]"
  shows "out (fixLast (flushGroup opts st))
           = out st @ map (render (alignColons opts) (maxKey (group st))) g
             @ [fixBrace (render (alignColons opts) (maxKey (group st)) e)]"
  by (simp add: fixLast_def assms butlast_append)

lemma fixLast_fields [simp]:
  "level (fixLast st) = level st" "emptyRun (fixLast st) = emptyRun st"
  "group (fixLast st) = group st" "groupLevel (fixLast st) = groupLevel st"
  by (simp_all add: fixLast_def)

lemma kvStep_inv:
  assumes "fmt_inv opts st" "k \<noteq> []" "is_alpha_us (hd k)"
  shows "fmt_inv opts (kvStep opts k v st)"
proof -
  define e where "e = \<lparr>kv_indentStr = repeat (indent opts) (level st), kv_key = k,
             kv_value = v, kv_level = level st\<rparr>"
  have e: "kv_ok (indent opts) e"
    using assms by (auto simp: kv_ok_def fmt_inv_def repeat_def e_def)
  define st2 where "st2 = addKV opts e st"
  have i2: "fmt_inv opts st2"
    using assms(1) e by (auto simp: fmt_inv_def render_indented st2_def)
  have "\<exists>g. group st2 = g @ [e]"
    by (cases "groupLevel st = None \<or> groupLevel st = Some (level st)") (auto simp: st2_def)
  then obtain g where g: "group st2 = g @ [e]" by blast
  have gok: "\<forall>x \<in> set g. kv_ok (indent opts) x"
    using i2 g by (auto simp: fmt_inv_def)
  have "fmt_inv opts (fixLast (flushGroup opts st2))"
    unfolding fmt_inv_def
  proof (intro conjI)
    show "0 \<le> level (fixLast (flushGroup opts st2))"
      using i2 by (simp add: fmt_inv_def)
    show "\<forall>l \<in> set (out (fixLast (flushGroup opts st2))). l = [] \<or> indented (indent opts) l"
      unfolding fixLast_flush_out [OF g] using i2 gok e
      by (auto simp: fmt_inv_def render_indented fixBrace_render_indented)
    show "\<forall>e \<in> set (group (fixLast (flushGroup opts st2))). kv_ok (indent opts) e"
      by simp
  qed
  then have "fmt_inv opts ((fixLast (flushGroup opts st2))\<lparr>level := level (fixLast (flushGroup opts st2)) + 1\<rparr>)"
    by (simp add: fmt_inv_def)
  then show ?thesis using i2
    by (simp add: kvStep_def Let_def flip: e_def st2_def)
qed

lemma kvRe_key:
  assumes "kvRe t = Some (k, v)"
  shows "k \<noteq> [] \<and> is_alpha_us (hd k)"
  using assms
  by (auto simp: kvRe_def kv_rest_def Let_def split: list.splits if_splits)

lemma step_nonblank:
  "trim line \<noteq> [] \<Longrightarrow> step opts st line =
     (let st1 = dedent (trim line) (st\<lparr>emptyRun := 0\<rparr>)
      in if trim line = ''SiiNunit'' \<or> trim line = ''SiiNunit{'' \<or> trim line = ''SiiNunit {''
         then push ''SiiNunit'' (flushGroup opts st1)
         else if trim line = ''{'' \<or> trim line = ''}'' \<or> isComment (trim line)
                 \<or> isDirective (trim line)
         then passStep opts (trim line) st1
         else (case kvRe (trim line) of
                 Some (k, v0) \<Rightarrow> kvStep opts k (normValue opts v0) st1
               | None \<Rightarrow> passStep opts (trim line) st1))"
  by (cases "trimTrailingWhitespace opts")
     (simp_all add: step_def Let_def split: option.splits)

lemma step_inv: "fmt_inv opts st \<Longrightarrow> fmt_inv opts (step opts st line)"
proof -
  assume a: "fmt_inv opts st"
  show ?thesis
  proof (cases "trim line = []")
    case True
    then show ?thesis using a by (simp add: step_blank blankStep_inv)
  next
    case False
    then have h: "\<not> is_space (hd (trim line))" by (rule trim_hd)
    let ?st1 = "dedent (trim line) (st\<lparr>emptyRun := 0\<rparr>)"
    have i1: "fmt_inv opts ?st1" using a by (rule dedent_inv)
    show ?thesis
      using False h i1
      by (auto simp: step_nonblank Let_def sii_inv passStep_inv kvStep_inv
               dest: kvRe_key split: option.splits)
  qed
qed

lemma init_inv: "fmt_inv opts init_state"
  by (simp add: fmt_inv_def init_state_def)

lemma foldl_inv: "fmt_inv opts st \<Longrightarrow> fmt_inv opts (foldl (step opts) st ls)"
  by (induction ls arbitrary: st) (simp_all add: step_inv)

text \<open>
  C9. During a pass the nesting level is never negative (the state after any number of
  lines is the state after a list of lines), and each line of the output that is not
  empty is the unit of indentation, repeated a whole number of times, followed by a text
  that does not start with white space.
\<close>

theorem level_and_indentation:
  "0 \<le> level (foldl (step opts) init_state ls)
   \<and> (\<forall>l \<in> set (formatLines opts ls). l = [] \<or>
        (\<exists>k t. l = concat (replicate k (indent opts)) @ t \<and> t \<noteq> [] \<and> \<not> is_space (hd t)))"
proof -
  have i: "fmt_inv opts (foldl (step opts) init_state ls)"
    using init_inv by (rule foldl_inv)
  then have "fmt_inv opts (flushGroup opts (foldl (step opts) init_state ls))"
    by (rule flushGroup_inv)
  then show ?thesis using i
    by (auto simp: fmt_inv_def formatLines_def indented_def simp del: flushGroup_fields)
qed

theorem level_and_indentation_witness:
  "0 \<le> level (foldl (step default_opts) init_state [''}'', ''x {'', '' b:1'', ''}'', ''}''])
   \<and> [CHR 0x09] @ ''b: 1'' \<in> set (formatLines default_opts [''}'', ''x {'', '' b:1'', ''}'', ''}''])
   \<and> (\<exists>k t. [CHR 0x09] @ ''b: 1'' = concat (replicate k (indent default_opts)) @ t
             \<and> t \<noteq> [] \<and> \<not> is_space (hd t))"
proof -
  have m: "[CHR 0x09] @ ''b: 1'' \<in> set (formatLines default_opts [''}'', ''x {'', '' b:1'', ''}'', ''}''])"
    by code_simp
  show ?thesis
    using level_and_indentation [of default_opts "[''}'', ''x {'', '' b:1'', ''}'', ''}'']"] m
    by auto
qed

subsection \<open>Line terminators\<close>

lemma lacks_simps [simp]:
  "lacks x []" "lacks x (c # s) \<longleftrightarrow> c \<noteq> x \<and> lacks x s"
  "lacks x (a @ b) \<longleftrightarrow> lacks x a \<and> lacks x b"
  by (auto simp: lacks_def)

lemma line_term_cases: "is_line_term x \<Longrightarrow> x = CHR 0x0A \<or> x = CHR 0x0D"
proof -
  assume "is_line_term x"
  then have "(of_char x :: nat) = of_char (CHR 0x0A) \<or> (of_char x :: nat) = of_char (CHR 0x0D)"
    by (simp add: is_line_term_def)
  then show ?thesis by (simp only: of_char_eq_iff)
qed

lemma split_lines_no_lf: "\<forall>l \<in> set (split_lines s). lacks (CHR 0x0A) l"
  by (induction s rule: split_lines.induct) (auto split: list.splits)

lemma split_lines_no_cr: "cr_before_lf s \<Longrightarrow> \<forall>l \<in> set (split_lines s). lacks (CHR 0x0D) l"
proof (induction s rule: split_lines.induct)
  case 1
  then show ?case by simp
next
  case (2 c cs)
  show ?case
  proof (cases "c = CHR 0x0A")
    case True
    then show ?thesis using 2 by simp
  next
    case nl: False
    show ?thesis
    proof (cases "c = CHR 0x0D \<and> cs \<noteq> [] \<and> hd cs = CHR 0x0A")
      case True
      then obtain r where r: "cs = CHR 0x0A # r" by (cases cs) auto
      with 2(4) have "cr_before_lf r" by simp
      with 2(2) nl True have "\<forall>l \<in> set (split_lines (tl cs)). lacks (CHR 0x0D) l"
        using r by simp
      then show ?thesis using nl True by simp
    next
      case False
      with 2(4) have c: "c \<noteq> CHR 0x0D" by auto
      from 2(4) have "cr_before_lf cs" by simp
      with 2(3) nl False have "\<forall>l \<in> set (split_lines cs). lacks (CHR 0x0D) l" by simp
      then show ?thesis using nl False c by (auto split: list.splits)
    qed
  qed
qed

lemma lacks_trimEnd: "lacks x s \<Longrightarrow> lacks x (trimEnd s)"
  by (auto simp: lacks_def trimEnd_def dest: set_dropWhileD)

lemma lacks_dropWhile: "lacks x s \<Longrightarrow> lacks x (dropWhile P s)"
  by (auto simp: lacks_def dest: set_dropWhileD)

lemma lacks_takeWhile: "lacks x s \<Longrightarrow> lacks x (takeWhile P s)"
  by (auto simp: lacks_def dest: set_takeWhileD)

lemma lacks_trim: "lacks x s \<Longrightarrow> lacks x (trim s)"
  by (simp add: trim_def trimStart_def lacks_trimEnd lacks_dropWhile)

lemma lacks_butlast: "lacks x s \<Longrightarrow> lacks x (butlast s)"
  by (auto simp: lacks_def dest: in_set_butlastD)

lemma lacks_drop: "lacks x s \<Longrightarrow> lacks x (drop n s)"
  by (auto simp: lacks_def dest: in_set_dropD)

lemma lacks_repeat: "lacks x u \<Longrightarrow> lacks x (repeat u n)"
  by (auto simp: lacks_def repeat_def)

lemma lacks_padEnd: "is_line_term x \<Longrightarrow> lacks x k \<Longrightarrow> lacks x (padEnd k w)"
  by (auto simp: lacks_def padEnd_def dest: line_term_cases)

lemma lacks_render:
  assumes "is_line_term x" "lacks x (kv_indentStr e)" "lacks x (kv_key e)" "lacks x (kv_value e)"
  shows "lacks x (render al w e)"
proof -
  have "lacks x '': ''" using line_term_cases [OF assms(1)] by auto
  then show ?thesis
    using assms by (simp add: render_def lacks_trimEnd lacks_padEnd)
qed

lemma lacks_fixBrace: "is_line_term x \<Longrightarrow> lacks x l \<Longrightarrow> lacks x (fixBrace l)"
  using line_term_cases [of x]
  by (auto simp: fixBrace_def lacks_trimEnd lacks_butlast)

lemma split_on_last: "dropWhile (\<lambda>c. c \<noteq> d) s = [] \<Longrightarrow> split_on d s = [s]"
  by (subst split_on.simps) (simp only: list.case)

lemma split_on_next:
  "dropWhile (\<lambda>c. c \<noteq> d) s = y # r \<Longrightarrow>
     split_on d s = takeWhile (\<lambda>c. c \<noteq> d) s # split_on d r"
  by (subst split_on.simps) (simp only: list.case)

lemma lacks_split_on: "lacks x s \<Longrightarrow> \<forall>p \<in> set (split_on d s). lacks x p"
proof (induction d s rule: split_on.induct)
  case (1 d s)
  show ?case
  proof (cases "dropWhile (\<lambda>c. c \<noteq> d) s")
    case Nil
    then show ?thesis using 1(2) by (simp only: split_on_last) simp
  next
    case (Cons y r)
    have "lacks x (y # r)"
      using 1(2) lacks_dropWhile [of x s "\<lambda>c. c \<noteq> d"] by (simp only: Cons)
    then have "lacks x r" by simp
    then have "\<forall>p \<in> set (split_on d r). lacks x p" using 1(1) Cons by blast
    moreover have "lacks x (takeWhile (\<lambda>c. c \<noteq> d) s)"
      using 1(2) by (rule lacks_takeWhile)
    ultimately show ?thesis by (simp only: split_on_next [OF Cons]) simp
  qed
qed

lemma lacks_join: "lacks x sep \<Longrightarrow> \<forall>p \<in> set xs. lacks x p \<Longrightarrow> lacks x (join sep xs)"
  by (induction sep xs rule: join.induct) simp_all

lemma lacks_normTuple:
  assumes "is_line_term x" "lacks x v"
  shows "lacks x (normTuple v)"
proof (cases "tupleRe v")
  case None
  then show ?thesis using assms(2) by (simp add: normTuple_def)
next
  case (Some inner)
  have lit: "lacks x '', ''" "x \<noteq> CHR ''(''" "x \<noteq> CHR '')''"
    using line_term_cases [OF assms(1)] by auto
  from Some have "inner = butlast (tl v)" by (auto simp: tupleRe_def split: if_splits)
  then have "lacks x inner"
    using assms(2) lacks_butlast [of x "tl v"] lacks_drop [of x v 1] by (simp add: drop_Suc)
  then have "\<forall>p \<in> set (map trim (split_on (CHR '','') inner)). lacks x p"
    using lacks_split_on [of x inner "CHR '',''"] by (auto simp: lacks_trim)
  then have "lacks x (join '', '' (map trim (split_on (CHR '','') inner)))"
    using lit(1) by (intro lacks_join)
  then show ?thesis using Some lit by (simp add: normTuple_def)
qed

lemma lacks_normValue: "is_line_term x \<Longrightarrow> lacks x v \<Longrightarrow> lacks x (normValue opts v)"
  by (simp add: normValue_def Let_def lacks_normTuple lacks_trim)

lemma lacks_kv_rest:
  assumes "kv_rest k r = Some (k', v)" "lacks x r"
  shows "k' = k \<and> lacks x v"
proof -
  obtain d ds where d: "dropWhile is_space r = d # ds"
    using assms(1) by (cases "dropWhile is_space r") (auto simp: kv_rest_def)
  have "lacks x (d # ds)" using assms(2) lacks_dropWhile [of x r is_space] by (simp only: d)
  then have "lacks x (dropWhile is_space ds)" by (simp add: lacks_dropWhile)
  moreover have "k' = k \<and> v = dropWhile is_space ds"
    using assms(1) by (auto simp: kv_rest_def d Let_def split: if_splits)
  ultimately show ?thesis by simp
qed

lemma lacks_kvRe:
  assumes "kvRe t = Some (k, v)" "lacks x t" "is_line_term x"
  shows "lacks x k \<and> lacks x v"
proof -
  obtain c cs where t: "t = c # cs" using assms(1) by (cases t) (auto simp: kvRe_def)
  have c: "c \<noteq> x" "lacks x cs" using assms(2) t by simp_all
  have lit: "lacks x ''[]''" using line_term_cases [OF assms(3)] by auto
  let ?k = "c # takeWhile is_key_char cs"
  let ?r = "dropWhile is_key_char cs"
  have nk: "lacks x ?k" using c by (simp add: lacks_takeWhile)
  have nr: "lacks x ?r" using c by (simp add: lacks_dropWhile)
  show ?thesis
  proof (cases "prefix ''[]'' ?r")
    case True
    then have "kv_rest (?k @ ''[]'') (drop 2 ?r) = Some (k, v)"
      using assms(1) by (simp add: kvRe_def t Let_def split: if_splits)
    then have "k = ?k @ ''[]'' \<and> lacks x v"
      using lacks_kv_rest [of "?k @ ''[]''" "drop 2 ?r" k v x] nr by (simp add: lacks_drop)
    then show ?thesis using nk lit by simp
  next
    case False
    then have "kv_rest ?k ?r = Some (k, v)"
      using assms(1) by (simp add: kvRe_def t Let_def split: if_splits)
    then have "k = ?k \<and> lacks x v"
      using lacks_kv_rest [of ?k ?r k v x] nr by simp
    then show ?thesis using nk by simp
  qed
qed

lemma flushGroup_lacks: "is_line_term x \<Longrightarrow> lacks_inv x st \<Longrightarrow> lacks_inv x (flushGroup opts st)"
  by (auto simp: lacks_inv_def lacks_render)

lemma blankStep_lacks: "is_line_term x \<Longrightarrow> lacks_inv x st \<Longrightarrow> lacks_inv x (blankStep opts st)"
  by (auto simp: blankStep_def Let_def lacks_inv_def lacks_render)

lemma passStep_lacks:
  "is_line_term x \<Longrightarrow> lacks_inv x st \<Longrightarrow> lacks x t \<Longrightarrow> lacks x (indent opts)
     \<Longrightarrow> lacks_inv x (passStep opts t st)"
  by (auto simp: passStep_def lacks_inv_def lacks_render lacks_repeat)

lemma dedent_lacks: "lacks_inv x st \<Longrightarrow> lacks_inv x (dedent t (st\<lparr>emptyRun := 0\<rparr>))"
  by (auto simp: dedent_def lacks_inv_def)

lemma sii_lacks:
  "is_line_term x \<Longrightarrow> lacks_inv x st \<Longrightarrow> lacks_inv x (push ''SiiNunit'' (flushGroup opts st))"
  using line_term_cases [of x]
  by (auto simp: lacks_inv_def lacks_render)

lemma kvStep_lacks:
  assumes "lacks_inv x st" "lacks x k" "lacks x v" "lacks x (indent opts)" "is_line_term x"
  shows "lacks_inv x (kvStep opts k v st)"
proof -
  define e where "e = \<lparr>kv_indentStr = repeat (indent opts) (level st), kv_key = k,
             kv_value = v, kv_level = level st\<rparr>"
  have e: "lacks x (kv_indentStr e) \<and> lacks x (kv_key e) \<and> lacks x (kv_value e)"
    using assms by (simp add: e_def lacks_repeat)
  define st2 where "st2 = addKV opts e st"
  have i2: "lacks_inv x st2"
    using assms(1,5) e by (auto simp: lacks_inv_def lacks_render st2_def)
  have "\<exists>g. group st2 = g @ [e]"
    by (cases "groupLevel st = None \<or> groupLevel st = Some (level st)") (auto simp: st2_def)
  then obtain g where g: "group st2 = g @ [e]" by blast
  have gok: "\<forall>y \<in> set g. lacks x (kv_indentStr y) \<and> lacks x (kv_key y) \<and> lacks x (kv_value y)"
    using i2 g by (auto simp: lacks_inv_def)
  have "lacks_inv x (fixLast (flushGroup opts st2))"
    unfolding lacks_inv_def
  proof (intro conjI)
    show "\<forall>l \<in> set (out (fixLast (flushGroup opts st2))). lacks x l"
      unfolding fixLast_flush_out [OF g] using i2 gok e assms(5)
      by (auto simp: lacks_inv_def lacks_render lacks_fixBrace)
    show "\<forall>e \<in> set (group (fixLast (flushGroup opts st2))).
            lacks x (kv_indentStr e) \<and> lacks x (kv_key e) \<and> lacks x (kv_value e)"
      by simp
  qed
  then have "lacks_inv x ((fixLast (flushGroup opts st2))\<lparr>level := level (fixLast (flushGroup opts st2)) + 1\<rparr>)"
    by (simp add: lacks_inv_def)
  then show ?thesis using i2
    by (simp add: kvStep_def Let_def flip: e_def st2_def)
qed

lemma step_lacks:
  assumes "lacks_inv x st" "lacks x line" "lacks x (indent opts)" "is_line_term x"
  shows "lacks_inv x (step opts st line)"
proof (cases "trim line = []")
  case True
  then show ?thesis using assms(1,4) by (simp add: step_blank blankStep_lacks)
next
  case False
  have t: "lacks x (trim line)" using assms(2) by (rule lacks_trim)
  have i1: "lacks_inv x (dedent (trim line) (st\<lparr>emptyRun := 0\<rparr>))"
    using assms(1) by (rule dedent_lacks)
  show ?thesis
    using False t i1 assms(3,4)
    by (auto simp: step_nonblank Let_def sii_lacks passStep_lacks kvStep_lacks lacks_normValue
             dest: lacks_kvRe split: option.splits)
qed

lemma foldl_lacks:
  "lacks_inv x st \<Longrightarrow> \<forall>l \<in> set ls. lacks x l \<Longrightarrow> lacks x (indent opts) \<Longrightarrow> is_line_term x
     \<Longrightarrow> lacks_inv x (foldl (step opts) st ls)"
  by (induction ls arbitrary: st) (simp_all add: step_lacks)

lemma formatLines_lacks:
  assumes "\<forall>l \<in> set ls. lacks x l" "lacks x (indent opts)" "is_line_term x"
  shows "\<forall>l \<in> set (formatLines opts ls). lacks x l"
proof -
  have "lacks_inv x init_state" by (simp add: lacks_inv_def init_state_def)
  then have "lacks_inv x (foldl (step opts) init_state ls)"
    using assms by (rule foldl_lacks)
  then have "lacks_inv x (flushGroup opts (foldl (step opts) init_state ls))"
    using assms(3) by (simp only: flushGroup_lacks)
  then show ?thesis
    by (simp add: lacks_inv_def formatLines_def del: flushGroup_fields)
qed

lemma split_lines_nonempty: "split_lines s \<noteq> []"
  by (induction s rule: split_lines.induct) (auto split: list.splits)

lemma split_lines_append:
  assumes "lacks (CHR 0x0A) l" "lacks (CHR 0x0D) l"
  shows "split_lines (l @ s) = (l @ hd (split_lines s)) # tl (split_lines s)"
  using assms
proof (induction l)
  case Nil
  then show ?case using split_lines_nonempty [of s] by simp
next
  case (Cons c l)
  then have "split_lines (l @ s) = (l @ hd (split_lines s)) # tl (split_lines s)" by simp
  moreover have "c \<noteq> CHR 0x0A" "c \<noteq> CHR 0x0D" using Cons.prems by simp_all
  ultimately show ?case by simp
qed

lemma split_lines_single:
  "lacks (CHR 0x0A) l \<Longrightarrow> lacks (CHR 0x0D) l \<Longrightarrow> split_lines l = [l]"
  using split_lines_append [of l "[]"] by simp

lemma split_lines_lf:
  "lacks (CHR 0x0A) l \<Longrightarrow> lacks (CHR 0x0D) l \<Longrightarrow>
     split_lines (l @ CHR 0x0A # s) = l # split_lines s"
  using split_lines_append [of l "CHR 0x0A # s"] by simp

lemma split_lines_crlf:
  "lacks (CHR 0x0A) l \<Longrightarrow> lacks (CHR 0x0D) l \<Longrightarrow>
     split_lines (l @ CHR 0x0D # CHR 0x0A # s) = l # split_lines s"
  using split_lines_append [of l "CHR 0x0D # CHR 0x0A # s"] by simp

lemma split_join_lf:
  "ls \<noteq> [] \<Longrightarrow> \<forall>l \<in> set ls. lacks (CHR 0x0A) l \<and> lacks (CHR 0x0D) l
     \<Longrightarrow> split_lines (join [CHR 0x0A] ls) = ls"
  by (induction "[CHR 0x0A]" ls rule: join.induct)
     (simp_all add: split_lines_single split_lines_lf)

lemma split_join_crlf:
  "ls \<noteq> [] \<Longrightarrow> \<forall>l \<in> set ls. lacks (CHR 0x0A) l \<and> lacks (CHR 0x0D) l
     \<Longrightarrow> split_lines (join [CHR 0x0D, CHR 0x0A] ls) = ls"
  by (induction "[CHR 0x0D, CHR 0x0A]" ls rule: join.induct)
     (simp_all add: split_lines_single split_lines_crlf)

text \<open>
  C10, as stated: for every input and every options bundle the output has no carriage
  return. The unit of indentation is a setting, a string of any characters; with a
  carriage return as the unit and a document whose line endings are LF, the line inside
  the block starts with a carriage return.
\<close>

theorem cr_in_indent_kept:
  "formatScsText (''{'' @ [CHR 0x0A] @ ''x'') (default_opts\<lparr>indent := [CHR 0x0D]\<rparr>)
     = ''{'' @ [CHR 0x0A, CHR 0x0D] @ ''x''"
  by code_simp

text \<open>
  C10, amended: the text of a document is its lines, none of which holds a carriage return
  or a line feed, joined with CR LF or with LF. When the unit of indentation has no
  carriage return, the formatter gives for both texts the formatted lines joined with LF,
  and no formatted line holds a carriage return (nor a line feed, when the unit has
  none): the output of a CR LF document is that of its LF twin and has no carriage
  return. More generally the output has no carriage return for an input where each
  carriage return is followed at once by a line feed.
\<close>

theorem crlf_normalised:
  assumes "ls \<noteq> []" and "\<forall>l \<in> set ls. CHR 0x0D \<notin> set l \<and> CHR 0x0A \<notin> set l"
    and "CHR 0x0D \<notin> set (indent opts)"
  shows "formatScsText (join [CHR 0x0D, CHR 0x0A] ls) opts = join [CHR 0x0A] (formatLines opts ls)
       \<and> formatScsText (join [CHR 0x0A] ls) opts = join [CHR 0x0A] (formatLines opts ls)
       \<and> (\<forall>l \<in> set (formatLines opts ls). CHR 0x0D \<notin> set l)
       \<and> (CHR 0x0A \<notin> set (indent opts) \<longrightarrow> (\<forall>l \<in> set (formatLines opts ls). CHR 0x0A \<notin> set l))
       \<and> CHR 0x0D \<notin> set (join [CHR 0x0A] (formatLines opts ls))
       \<and> (cr_before_lf input \<longrightarrow> CHR 0x0D \<notin> set (formatScsText input opts))"
proof -
  have l: "\<forall>l \<in> set ls. lacks (CHR 0x0A) l \<and> lacks (CHR 0x0D) l"
    using assms(2) by (simp add: lacks_def)
  have 1: "formatScsText (join [CHR 0x0D, CHR 0x0A] ls) opts = join [CHR 0x0A] (formatLines opts ls)"
    using assms(1) l by (simp add: formatScsText_def split_join_crlf)
  have 2: "formatScsText (join [CHR 0x0A] ls) opts = join [CHR 0x0A] (formatLines opts ls)"
    using assms(1) l by (simp add: formatScsText_def split_join_lf)
  have cr: "is_line_term (CHR 0x0D)" and lf: "is_line_term (CHR 0x0A)"
    by (simp_all add: is_line_term_def)
  have ind: "lacks (CHR 0x0D) (indent opts)" using assms(3) by (simp add: lacks_def)
  have "\<forall>l \<in> set (formatLines opts ls). lacks (CHR 0x0D) l"
    using l ind cr by (intro formatLines_lacks) simp_all
  then have 3: "\<forall>l \<in> set (formatLines opts ls). CHR 0x0D \<notin> set l"
    by (simp add: lacks_def)
  have 4: "CHR 0x0A \<notin> set (indent opts) \<longrightarrow> (\<forall>l \<in> set (formatLines opts ls). CHR 0x0A \<notin> set l)"
  proof
    assume "CHR 0x0A \<notin> set (indent opts)"
    then have "lacks (CHR 0x0A) (indent opts)" by (simp add: lacks_def)
    then have "\<forall>l \<in> set (formatLines opts ls). lacks (CHR 0x0A) l"
      using l lf by (intro formatLines_lacks) simp_all
    then show "\<forall>l \<in> set (formatLines opts ls). CHR 0x0A \<notin> set l" by (simp add: lacks_def)
  qed
  have "lacks (CHR 0x0D) (join [CHR 0x0A] (formatLines opts ls))"
    using 3 by (intro lacks_join) (simp_all add: lacks_def)
  then have 5: "CHR 0x0D \<notin> set (join [CHR 0x0A] (formatLines opts ls))"
    by (simp add: lacks_def)
  have 6: "cr_before_lf input \<longrightarrow> CHR 0x0D \<notin> set (formatScsText input opts)"
  proof
    assume "cr_before_lf input"
    then have "\<forall>l \<in> set (split_lines input). lacks (CHR 0x0D) l"
      by (rule split_lines_no_cr)
    then have "\<forall>l \<in> set (formatLines opts (split_lines input)). lacks (CHR 0x0D) l"
      using ind cr by (rule formatLines_lacks)
    then have "lacks (CHR 0x0D) (join [CHR 0x0A] (formatLines opts (split_lines input)))"
      by (intro lacks_join) simp_all
    then show "CHR 0x0D \<notin> set (formatScsText input opts)"
      by (simp add: formatScsText_def lacks_def)
  qed
  from 1 2 3 4 5 6 show ?thesis by blast
qed

lemma ev_fmt_ab: "formatLines default_opts [''a:1  '', ''{'', ''b''] = [''a: 1'', ''{'', [CHR 0x09] @ ''b'']"
  by code_simp

theorem crlf_normalised_witness:
  "[''a:1  '', ''{'', ''b''] \<noteq> []
   \<and> CHR 0x0D \<notin> set ''a:1  '' \<and> CHR 0x0A \<notin> set ''a:1  ''
   \<and> CHR 0x0D \<notin> set ''{'' \<and> CHR 0x0A \<notin> set ''{''
   \<and> CHR 0x0D \<notin> set ''b'' \<and> CHR 0x0A \<notin> set ''b''
   \<and> CHR 0x0D \<notin> set (indent default_opts) \<and> CHR 0x0A \<notin> set (indent default_opts)
   \<and> cr_before_lf (''a:1  '' @ [CHR 0x0D, CHR 0x0A] @ ''{'' @ [CHR 0x0D, CHR 0x0A] @ ''b'')
   \<and> formatScsText (''a:1  '' @ [CHR 0x0D, CHR 0x0A] @ ''{'' @ [CHR 0x0D, CHR 0x0A] @ ''b'') default_opts
       = ''a: 1'' @ [CHR 0x0A] @ ''{'' @ [CHR 0x0A] @ [CHR 0x09] @ ''b''
   \<and> formatScsText (''a:1  '' @ [CHR 0x0A] @ ''{'' @ [CHR 0x0A] @ ''b'') default_opts
       = ''a: 1'' @ [CHR 0x0A] @ ''{'' @ [CHR 0x0A] @ [CHR 0x09] @ ''b''
   \<and> CHR 0x0D \<notin> set (formatScsText (''a:1  '' @ [CHR 0x0D, CHR 0x0A] @ ''{'' @ [CHR 0x0D, CHR 0x0A] @ ''b'') default_opts)"
  using crlf_normalised [of "[''a:1  '', ''{'', ''b'']" default_opts
      "''a:1  '' @ [CHR 0x0D, CHR 0x0A] @ ''{'' @ [CHR 0x0D, CHR 0x0A] @ ''b''"]
  apply (simp only: ev_fmt_ab)
  apply (simp add: default_opts_def)
  done

subsection \<open>Alpha in the default presentation\<close>

lemma digitChar_digit: "d < 10 \<Longrightarrow> is_digit (digitChar d)"
proof -
  assume "d < 10"
  then have "d \<in> {0, 1, 2, 3, 4, 5, 6, 7, 8, 9}" by auto
  then show ?thesis by (auto simp: digitChar_def is_digit_def)
qed

lemma digit_not_comma: "is_digit c \<Longrightarrow> c \<noteq> CHR '',''"
  by (auto simp: is_digit_def)

lemma decStr_digits: "\<forall>c \<in> set (decStr n). is_digit c"
proof (induction n rule: decStr.induct)
  case (1 n)
  show ?case
  proof (cases "n < 10")
    case True
    then show ?thesis by (subst decStr.simps) (simp add: digitChar_digit)
  next
    case False
    then have "\<forall>c \<in> set (decStr (n div 10)). is_digit c" using 1 by simp
    then show ?thesis using False
      by (subst decStr.simps) (simp add: digitChar_digit)
  qed
qed

lemma decStr_no_comma: "count_list (decStr n) (CHR '','') = 0"
  unfolding count_list_0_iff using decStr_digits by (blast dest: digit_not_comma)

lemma decStr_set: "CHR '','' \<notin> set (decStr n)"
  using decStr_no_comma by (simp add: count_list_0_iff)

lemma toFixed6_no_comma: "count_list (toFixed6 v) (CHR '','') = 0"
proof -
  have "\<And>k p. CHR '','' \<notin> set (replicate k (CHR ''0'') @ decStr p)"
    using decStr_set by auto
  then have "\<And>k p j. CHR '','' \<notin> set (take j (replicate k (CHR ''0'') @ decStr p))"
    "\<And>k p j. CHR '','' \<notin> set (drop j (replicate k (CHR ''0'') @ decStr p))"
    by (blast dest: in_set_takeD, blast dest: in_set_dropD)
  then show ?thesis
    unfolding count_list_0_iff toFixed6_def Let_def by auto
qed

lemma count_comma_lit [simp]:
  "count_list (c # s) (CHR '','') = (if c = CHR '','' then 1 else 0) + count_list s (CHR '','')"
  by simp

lemma alphaShown_tuple:
  "alphaShown (tupleRGBA b c)" "\<not> alphaShown (tupleRGB b c)"
proof -
  have h: "\<not> startsWith (tupleRGBA b c) ''#''" "\<not> startsWith (tupleRGB b c) ''#''"
    by (simp_all add: tupleRGBA_def tupleRGB_def startsWith_def)
  have "count_list (tupleRGBA b c) (CHR '','') = 3"
    by (simp add: tupleRGBA_def decStr_no_comma toFixed6_no_comma del: count_list.simps)
  moreover have "count_list (tupleRGB b c) (CHR '','') = 2"
    by (simp add: tupleRGB_def decStr_no_comma toFixed6_no_comma del: count_list.simps)
  ultimately show "alphaShown (tupleRGBA b c)" "\<not> alphaShown (tupleRGB b c)"
    using h by (simp_all add: alphaShown_def)
qed

lemma alphaShown_hex:
  "alphaShown (hexRGBA c)" "\<not> alphaShown (hexRGB c)"
  by (simp_all add: alphaShown_def hexRGBA_def hexRGB_def startsWith_def hex2_def)

lemma hd_presentations:
  "hd (provideColorPresentations c text)
     = (if str_includes (trim text) ''#''
        then (if wantsAlpha c (trim text) then hexRGBA c else hexRGB c)
        else (if wantsAlpha c (trim text) then tupleRGBA (has255 (trim text)) c
              else tupleRGB (has255 (trim text)) c))"
  by (simp add: provideColorPresentations_def Let_def)

lemma space_sep: "is_space c \<Longrightarrow> is_sep c"
  by (auto simp: is_space_def is_sep_def is_digit_def)

lemma sep_lits: "is_sep (CHR ''('')" "is_sep (CHR '')'')" "is_sep (CHR '','')"
  by (simp_all add: is_sep_def is_digit_def)

lemma numAt_sep: "is_sep c \<Longrightarrow> numAt (c # r) = None"
  by (simp add: numAt_def is_sep_def)

lemma numMatches_Nil: "numMatches [] = []"
  by (simp add: numMatches.simps)

lemma numMatches_sep: "is_sep c \<Longrightarrow> numMatches (c # r) = numMatches r"
  by (subst numMatches.simps) (simp add: numAt_sep)

lemma numMatches_seps: "\<forall>c \<in> set w. is_sep c \<Longrightarrow> numMatches (w @ r) = numMatches r"
  by (induction w) (simp_all add: numMatches_sep)

lemma takeWhile_digits_stop:
  "\<forall>c \<in> set d. is_digit c \<Longrightarrow> r = [] \<or> \<not> is_digit (hd r) \<Longrightarrow>
     takeWhile is_digit (d @ r) = d \<and> dropWhile is_digit (d @ r) = r"
  by (cases r) (simp_all add: takeWhile_append2 dropWhile_append2)

lemma numAt_eval:
  assumes "(case s of [] \<Rightarrow> 0 | c # _ \<Rightarrow> if c = CHR ''+'' \<or> c = CHR ''-'' then 1 else 0) = sg"
    and "takeWhile is_digit (drop sg s) = d1"
    and "(case dropWhile is_digit (drop sg s) of
                  [] \<Rightarrow> []
                | c # r2 \<Rightarrow> if c = CHR ''.'' then takeWhile is_digit r2 else []) = d2"
  shows "numAt s = (if d2 \<noteq> [] then Some (sg + length d1 + 1 + length d2)
                    else if d1 \<noteq> [] then Some (sg + length d1) else None)"
  by (simp only: numAt_def Let_def assms)

lemma body_parts:
  assumes "r = [] \<or> is_sep (hd r)"
    and "dropWhile is_digit b = [] \<and> b \<noteq> [] \<or>
         dropWhile is_digit b \<noteq> [] \<and> hd (dropWhile is_digit b) = CHR ''.''
           \<and> tl (dropWhile is_digit b) \<noteq> [] \<and> list_all is_digit (tl (dropWhile is_digit b))"
  shows "\<exists>d1 d2. takeWhile is_digit (b @ r) = d1
           \<and> (case dropWhile is_digit (b @ r) of
                  [] \<Rightarrow> []
                | c # r2 \<Rightarrow> if c = CHR ''.'' then takeWhile is_digit r2 else []) = d2
           \<and> (d2 \<noteq> [] \<and> length d1 + 1 + length d2 = length b
                \<or> d2 = [] \<and> d1 \<noteq> [] \<and> length d1 = length b)"
proof -
  have r: "r = [] \<or> \<not> is_digit (hd r)" "r = [] \<or> hd r \<noteq> CHR ''.''"
    using assms(1) by (auto simp: is_sep_def)
  from assms(2) show ?thesis
  proof
    assume a: "dropWhile is_digit b = [] \<and> b \<noteq> []"
    then have d: "\<forall>c \<in> set b. is_digit c" by (simp add: dropWhile_eq_Nil_conv)
    have tw: "takeWhile is_digit (b @ r) = b" "dropWhile is_digit (b @ r) = r"
      using takeWhile_digits_stop [OF d r(1)] by simp_all
    have "(case r of [] \<Rightarrow> [] | c # r2 \<Rightarrow> if c = CHR ''.'' then takeWhile is_digit r2 else []) = []"
      using r(2) by (cases r) simp_all
    then show ?thesis unfolding tw using a by simp
  next
    assume a: "dropWhile is_digit b \<noteq> [] \<and> hd (dropWhile is_digit b) = CHR ''.''
           \<and> tl (dropWhile is_digit b) \<noteq> [] \<and> list_all is_digit (tl (dropWhile is_digit b))"
    define d1 where "d1 = takeWhile is_digit b"
    define d2 where "d2 = tl (dropWhile is_digit b)"
    have b: "b = d1 @ CHR ''.'' # d2"
      using a takeWhile_dropWhile_id [of is_digit b]
      by (cases "dropWhile is_digit b") (simp_all add: d1_def d2_def)
    have d1: "\<forall>c \<in> set d1. is_digit c" by (auto simp: d1_def dest: set_takeWhileD)
    have d2: "\<forall>c \<in> set d2. is_digit c" "d2 \<noteq> []"
      using a by (simp_all add: d2_def list_all_iff)
    have nd: "\<not> is_digit (CHR ''.'')" by (simp add: is_digit_def)
    have 1: "takeWhile is_digit (b @ r) = d1" "dropWhile is_digit (b @ r) = CHR ''.'' # d2 @ r"
      using takeWhile_digits_stop [of d1 "CHR ''.'' # d2 @ r"] d1 nd by (simp_all add: b)
    have 2: "takeWhile is_digit (d2 @ r) = d2"
      using takeWhile_digits_stop [of d2 r] d2(1) r(1) by simp
    show ?thesis unfolding 1 using d2(2) by (simp add: 2 b)
  qed
qed

lemma is_number_nonempty: "is_number n \<Longrightarrow> n \<noteq> []"
  by (auto simp: is_number_def)

lemma numAt_number:
  assumes "is_number n" "r = [] \<or> is_sep (hd r)"
  shows "numAt (n @ r) = Some (length n)"
proof -
  obtain c cs where n: "n = c # cs" using is_number_nonempty [OF assms(1)] by (cases n) auto
  show ?thesis
  proof (cases "c = CHR ''+'' \<or> c = CHR ''-''")
    case True
    then have "dropWhile is_digit cs = [] \<and> cs \<noteq> [] \<or>
         dropWhile is_digit cs \<noteq> [] \<and> hd (dropWhile is_digit cs) = CHR ''.''
           \<and> tl (dropWhile is_digit cs) \<noteq> [] \<and> list_all is_digit (tl (dropWhile is_digit cs))"
      using assms(1) by (auto simp: is_number_def n Let_def split: if_splits)
    from body_parts [OF assms(2) this] obtain d1 d2 where
      d: "takeWhile is_digit (cs @ r) = d1"
         "(case dropWhile is_digit (cs @ r) of
                  [] \<Rightarrow> []
                | c # r2 \<Rightarrow> if c = CHR ''.'' then takeWhile is_digit r2 else []) = d2"
         "d2 \<noteq> [] \<and> length d1 + 1 + length d2 = length cs
                \<or> d2 = [] \<and> d1 \<noteq> [] \<and> length d1 = length cs"
      by blast
    have "numAt (n @ r) = (if d2 \<noteq> [] then Some (1 + length d1 + 1 + length d2)
                    else if d1 \<noteq> [] then Some (1 + length d1) else None)"
      using True d(1,2) by (intro numAt_eval) (simp_all add: n)
    then show ?thesis using d(3) by (auto simp: n)
  next
    case False
    then have "dropWhile is_digit n = [] \<and> n \<noteq> [] \<or>
         dropWhile is_digit n \<noteq> [] \<and> hd (dropWhile is_digit n) = CHR ''.''
           \<and> tl (dropWhile is_digit n) \<noteq> [] \<and> list_all is_digit (tl (dropWhile is_digit n))"
      using assms(1) unfolding is_number_def n Let_def by (simp split: if_splits)
    from body_parts [OF assms(2) this] obtain d1 d2 where
      d: "takeWhile is_digit (n @ r) = d1"
         "(case dropWhile is_digit (n @ r) of
                  [] \<Rightarrow> []
                | c # r2 \<Rightarrow> if c = CHR ''.'' then takeWhile is_digit r2 else []) = d2"
         "d2 \<noteq> [] \<and> length d1 + 1 + length d2 = length n
                \<or> d2 = [] \<and> d1 \<noteq> [] \<and> length d1 = length n"
      by blast
    have "numAt (n @ r) = (if d2 \<noteq> [] then Some (0 + length d1 + 1 + length d2)
                    else if d1 \<noteq> [] then Some (0 + length d1) else None)"
      using d(1,2) by (intro numAt_eval) (use False in \<open>simp_all add: n\<close>)
    then show ?thesis using d(3) by auto
  qed
qed

lemma numMatches_number:
  assumes "is_number n" "r = [] \<or> is_sep (hd r)"
  shows "numMatches (n @ r) = n # numMatches r"
  using is_number_nonempty [OF assms(1)] numAt_number [OF assms]
  by (subst numMatches.simps) simp

lemma numMatches_component:
  assumes "component_ok p" "r = [] \<or> is_sep (hd r)"
  shows "numMatches (component p @ r) = fst (snd p) # numMatches r"
proof -
  obtain w n w' where p: "p = (w, n, w')" by (cases p) auto
  have w: "\<forall>c \<in> set w. is_sep c" "\<forall>c \<in> set w'. is_sep c" and n: "is_number n"
    using assms(1) by (auto simp: p component_ok_def list_all_iff space_sep)
  have "w' @ r = [] \<or> is_sep (hd (w' @ r))"
    using w(2) assms(2) by (cases w') auto
  then have "numMatches (n @ w' @ r) = n # numMatches (w' @ r)"
    using n by (intro numMatches_number)
  then show ?thesis
    using w by (simp add: p component_def numMatches_seps)
qed

lemma numMatches_components:
  "list_all component_ok cs \<Longrightarrow> cs \<noteq> [] \<Longrightarrow>
     numMatches (join '','' (map component cs) @ '')'') = map (\<lambda>p. fst (snd p)) cs"
proof (induction cs rule: induct_list012)
  case 1
  then show ?case by simp
next
  case (2 x)
  then show ?case
    using numMatches_component [of x "'')''"]
    by (simp add: sep_lits numMatches_sep numMatches_Nil)
next
  case (3 x y zs)
  have "numMatches (component x @ '','' @ join '','' (map component (y # zs)) @ '')'')
          = fst (snd x) # numMatches ('','' @ join '','' (map component (y # zs)) @ '')'')"
    using 3(3) by (intro numMatches_component) (simp_all add: sep_lits)
  then show ?case using 3 by (simp add: numMatches_sep sep_lits)
qed

lemma numMatches_tuple:
  "list_all component_ok cs \<Longrightarrow> cs \<noteq> [] \<Longrightarrow>
     length (numMatches (literalText (TupleLit cs))) = length cs"
  by (simp add: numMatches_sep sep_lits numMatches_components)

lemma hasHex8_hash: "hasHex8 s \<Longrightarrow> CHR ''#'' \<in> set s"
  by (induction s) auto

lemma hex_not_hash: "is_hex c \<Longrightarrow> c \<noteq> CHR ''#''"
  by (auto simp: is_hex_def is_digit_def)

lemma hex_not_space: "is_hex c \<Longrightarrow> \<not> is_space c"
  by (auto simp: is_hex_def is_digit_def is_space_def)

lemma digit_not_hash: "is_digit c \<Longrightarrow> c \<noteq> CHR ''#''"
  by (auto simp: is_digit_def)

lemma space_not_hash: "is_space c \<Longrightarrow> c \<noteq> CHR ''#''"
  by (auto simp: is_space_def)

lemma number_no_hash:
  assumes "is_number n"
  shows "CHR ''#'' \<notin> set n"
proof -
  define r where "r = (case n of [] \<Rightarrow> [] | c # cs \<Rightarrow> if c = CHR ''+'' \<or> c = CHR ''-'' then cs else n)"
  have n: "CHR ''#'' \<in> set n \<Longrightarrow> CHR ''#'' \<in> set r"
    by (cases n) (auto simp: r_def)
  have tk: "CHR ''#'' \<notin> set (takeWhile is_digit r)"
    by (auto dest: set_takeWhileD digit_not_hash)
  have "CHR ''#'' \<notin> set (dropWhile is_digit r)"
  proof (cases "dropWhile is_digit r")
    case Nil
    show ?thesis unfolding Nil by simp
  next
    case (Cons d ds)
    have "if dropWhile is_digit r = [] then r \<noteq> []
          else hd (dropWhile is_digit r) = CHR ''.'' \<and> tl (dropWhile is_digit r) \<noteq> []
               \<and> list_all is_digit (tl (dropWhile is_digit r))"
      using assms unfolding is_number_def Let_def r_def .
    then have "d = CHR ''.'' \<and> list_all is_digit ds"
      unfolding Cons by simp
    then show ?thesis using Cons by (auto simp: list_all_iff dest: digit_not_hash)
  qed
  then have "CHR ''#'' \<notin> set r"
    using tk takeWhile_dropWhile_id [of is_digit r] by (metis Un_iff set_append)
  then show ?thesis using n by blast
qed

lemma component_no_hash: "component_ok p \<Longrightarrow> CHR ''#'' \<notin> set (component p)"
  by (cases p) (auto simp: component_ok_def component_def list_all_iff number_no_hash
      dest: space_not_hash)

lemma join_no_hash:
  "\<forall>x \<in> set xs. CHR ''#'' \<notin> set x \<Longrightarrow> CHR ''#'' \<notin> set (join '','' xs)"
  by (induction "'',''" xs rule: join.induct) simp_all

lemma tuple_no_hash:
  "list_all component_ok cs \<Longrightarrow> CHR ''#'' \<notin> set (literalText (TupleLit cs))"
  using join_no_hash [of "map component cs"]
  by (simp add: list_all_iff component_no_hash)

lemma literal_trim:
  assumes "wellFormed lit"
  shows "trim (literalText lit) = literalText lit"
proof (cases lit)
  case (HexLit h a)
  have ns: "\<not> is_space (CHR ''#'')" by (simp add: is_space_def)
  have h: "h \<noteq> []" "\<forall>c \<in> set h. \<not> is_space c"
    using assms HexLit by (auto simp: list_all_iff hex_not_space)
  have "\<not> is_space (last (h @ (case a of None \<Rightarrow> [] | Some x \<Rightarrow> x)))"
  proof (cases a)
    case None
    then show ?thesis using h by simp
  next
    case (Some x)
    then have "x \<noteq> []" "\<forall>c \<in> set x. \<not> is_space c"
      using assms HexLit by (auto simp: list_all_iff hex_not_space)
    then show ?thesis using Some by simp
  qed
  then show ?thesis using HexLit ns h(1) by (intro trim_id) simp_all
next
  case (TupleLit cs)
  have "\<not> is_space (CHR ''('')" "\<not> is_space (CHR '')'')" by (simp_all add: is_space_def)
  then show ?thesis using TupleLit by (intro trim_id) simp_all
qed

lemma hex_detectors:
  assumes "wellFormed (HexLit h a)"
  shows "hadHexAlpha (literalText (HexLit h a)) \<longleftrightarrow> a \<noteq> None"
    and "\<not> hadTupleAlpha (literalText (HexLit h a))"
proof -
  have h: "length h = 6" "\<forall>c \<in> set h. is_hex c"
    using assms by (simp_all add: list_all_iff)
  show "\<not> hadTupleAlpha (literalText (HexLit h a))"
    by (simp add: hadTupleAlpha_def startsWith_def)
  show "hadHexAlpha (literalText (HexLit h a)) \<longleftrightarrow> a \<noteq> None"
  proof (cases a)
    case None
    have "CHR ''#'' \<notin> set h" using h(2) by (auto dest: hex_not_hash)
    then have "\<not> hasHex8 h" by (auto dest: hasHex8_hash)
    then show ?thesis using None h(1) by (simp add: hadHexAlpha_def)
  next
    case (Some x)
    then have x: "length x = 2" "\<forall>c \<in> set x. is_hex c"
      using assms by (simp_all add: list_all_iff)
    have "\<forall>c \<in> set (take 8 (h @ x)). is_hex c"
      using h x by (auto dest: in_set_takeD)
    then show ?thesis using Some h(1) x(1) by (simp add: hadHexAlpha_def)
  qed
qed

lemma tuple_detectors:
  assumes "wellFormed (TupleLit cs)"
  shows "\<not> hadHexAlpha (literalText (TupleLit cs))"
    and "hadTupleAlpha (literalText (TupleLit cs)) \<longleftrightarrow> length cs = 4"
proof -
  have cs: "list_all component_ok cs" "cs \<noteq> []" "length cs = 3 \<or> length cs = 4"
    using assms by auto
  show "\<not> hadHexAlpha (literalText (TupleLit cs))"
    using tuple_no_hash [OF cs(1)] hasHex8_hash unfolding hadHexAlpha_def by blast
  have "length (numMatches (literalText (TupleLit cs))) = length cs"
    using cs(1,2) by (rule numMatches_tuple)
  then show "hadTupleAlpha (literalText (TupleLit cs)) \<longleftrightarrow> length cs = 4"
    using cs(3) by (auto simp: hadTupleAlpha_def startsWith_def)
qed

lemma literal_detectors:
  assumes "wellFormed lit"
  shows "hadTupleAlpha (literalText lit) \<or> hadHexAlpha (literalText lit) \<longleftrightarrow> hasAlpha lit"
proof (cases lit)
  case (HexLit h a)
  then show ?thesis using assms hex_detectors [of h a] by simp
next
  case (TupleLit cs)
  then show ?thesis using assms tuple_detectors [of cs] by simp
qed


text \<open>
  C4, amended: for a colour literal, a hex code of six or eight digits or a tuple of three
  or four numbers, the default presentation, the first of the list, shows an alpha
  component exactly when the literal has one (eight digits, four numbers) or the alpha of
  the colour is below 0.999. So the presence or absence of the alpha of the literal is
  kept, but for a colour with an alpha below 0.999, where the alpha is shown.
\<close>

theorem default_presentation_alpha:
  assumes "wellFormed lit"
  shows "alphaShown (hd (provideColorPresentations c (literalText lit)))
           \<longleftrightarrow> hasAlpha lit \<or> alpha c < threshold999"
  unfolding hd_presentations literal_trim [OF assms]
  using literal_detectors [OF assms]
  by (auto simp: wantsAlpha_def alphaShown_tuple alphaShown_hex)

lemma eg_plain_tuple: "\<not> str_includes (trim ''(0.5, 0.5, 0.5)'') ''#'' \<and> \<not> has255 (trim ''(0.5, 0.5, 0.5)'')"
  by code_simp
lemma eg_tuple_without_alpha: "\<not> hadTupleAlpha (trim ''(0.5, 0.5, 0.5)'') \<and> \<not> hadHexAlpha (trim ''(0.5, 0.5, 0.5)'')" by code_simp
lemma eg_threshold: "(1/2 :: rat) < threshold999 \<and> \<not> (1 :: rat) < threshold999
   \<and> \<not> (2047 / 2048 :: rat) < threshold999" by (simp add: threshold999_def)
lemma floor_rat_numeral: "\<lfloor>numeral a / numeral b :: rat\<rfloor> = numeral a div numeral b"
  using floor_divide_of_int_eq [of "numeral a" "numeral b", where ?'a = rat] by simp

lemma decStr_500000: "decStr 500000 = ''500000''"
  by (simp add: decStr.simps digitChar_def)

lemma eg_toFixed6_half: "toFixed6 (1 / 2) = ''0.500000''"
  by (simp only: toFixed6_def Let_def) (simp add: floor_rat_numeral decStr_500000)

text \<open>
  C4, as stated: the alpha component appears in the default presentation whenever the
  alpha of the colour is not 1. With the alpha 2047/2048 and the original literal
  \<open>(0.5, 0.5, 0.5)\<close>, which has no alpha, the default presentation has no alpha.
\<close>

theorem alpha_near_one_hidden:
  "(2047 / 2048 :: rat) \<noteq> 1
   \<and> \<not> hadTupleAlpha (trim ''(0.5, 0.5, 0.5)'') \<and> \<not> hadHexAlpha (trim ''(0.5, 0.5, 0.5)'')
   \<and> hd (provideColorPresentations
           \<lparr>red = 1 / 2, green = 1 / 2, blue = 1 / 2, alpha = 2047 / 2048\<rparr> ''(0.5, 0.5, 0.5)'')
       = ''(0.500000, 0.500000, 0.500000)''"
  using eg_plain_tuple eg_tuple_without_alpha eg_threshold by (simp add: hd_presentations wantsAlpha_def tupleRGB_def eg_toFixed6_half)

lemma eg_hex6:
  "wellFormed (HexLit ''FF00CC'' None)"
  "literalText (HexLit ''FF00CC'' None) = ''#FF00CC''"
  by code_simp+

lemma eg_hex8:
  "wellFormed (HexLit ''FF00CC'' (Some ''80''))"
  "literalText (HexLit ''FF00CC'' (Some ''80'')) = ''#FF00CC80''"
  by code_simp+

lemma eg_tuple3:
  "wellFormed (TupleLit [([], ''0.5'', []), ('' '', ''0.5'', []), ('' '', ''0.5'', [])])"
  "literalText (TupleLit [([], ''0.5'', []), ('' '', ''0.5'', []), ('' '', ''0.5'', [])])
     = ''(0.5, 0.5, 0.5)''"
  by code_simp+

lemma eg_tuple4:
  "wellFormed (TupleLit [('' '', ''128'', []), ('' '', ''0'', '' ''), ([], ''255'', []), ('' '', ''+.5'', '' '')])"
  "literalText (TupleLit [('' '', ''128'', []), ('' '', ''0'', '' ''), ([], ''255'', []), ('' '', ''+.5'', '' '')])
     = ''( 128, 0 ,255, +.5 )''"
  by code_simp+

theorem default_presentation_alpha_witness:
  "wellFormed (HexLit ''FF00CC'' None)
   \<and> \<not> alphaShown (hd (provideColorPresentations
         \<lparr>red = 1, green = 0, blue = 4 / 5, alpha = 1\<rparr> ''#FF00CC''))
   \<and> alphaShown (hd (provideColorPresentations
         \<lparr>red = 1, green = 0, blue = 4 / 5, alpha = 1 / 2\<rparr> ''#FF00CC''))
   \<and> wellFormed (HexLit ''FF00CC'' (Some ''80''))
   \<and> alphaShown (hd (provideColorPresentations
         \<lparr>red = 1, green = 0, blue = 4 / 5, alpha = 1\<rparr> ''#FF00CC80''))
   \<and> wellFormed (TupleLit [([], ''0.5'', []), ('' '', ''0.5'', []), ('' '', ''0.5'', [])])
   \<and> \<not> alphaShown (hd (provideColorPresentations
         \<lparr>red = 1 / 2, green = 1 / 2, blue = 1 / 2, alpha = 1\<rparr> ''(0.5, 0.5, 0.5)''))
   \<and> alphaShown (hd (provideColorPresentations
         \<lparr>red = 1 / 2, green = 1 / 2, blue = 1 / 2, alpha = 1 / 2\<rparr> ''(0.5, 0.5, 0.5)''))
   \<and> wellFormed (TupleLit [('' '', ''128'', []), ('' '', ''0'', '' ''), ([], ''255'', []), ('' '', ''+.5'', '' '')])
   \<and> alphaShown (hd (provideColorPresentations
         \<lparr>red = 1 / 2, green = 0, blue = 1, alpha = 1\<rparr> ''( 128, 0 ,255, +.5 )''))"
  using default_presentation_alpha [of "HexLit ''FF00CC'' None"
          "\<lparr>red = 1, green = 0, blue = 4 / 5, alpha = 1\<rparr>"]
    default_presentation_alpha [of "HexLit ''FF00CC'' None"
          "\<lparr>red = 1, green = 0, blue = 4 / 5, alpha = 1 / 2\<rparr>"]
    default_presentation_alpha [of "HexLit ''FF00CC'' (Some ''80'')"
          "\<lparr>red = 1, green = 0, blue = 4 / 5, alpha = 1\<rparr>"]
    default_presentation_alpha [of "TupleLit [([], ''0.5'', []), ('' '', ''0.5'', []), ('' '', ''0.5'', [])]"
          "\<lparr>red = 1 / 2, green = 1 / 2, blue = 1 / 2, alpha = 1\<rparr>"]
    default_presentation_alpha [of "TupleLit [([], ''0.5'', []), ('' '', ''0.5'', []), ('' '', ''0.5'', [])]"
          "\<lparr>red = 1 / 2, green = 1 / 2, blue = 1 / 2, alpha = 1 / 2\<rparr>"]
    default_presentation_alpha [of "TupleLit [('' '', ''128'', []), ('' '', ''0'', '' ''), ([], ''255'', []), ('' '', ''+.5'', '' '')]"
          "\<lparr>red = 1 / 2, green = 0, blue = 1, alpha = 1\<rparr>"]
    eg_threshold
  by (simp only: eg_hex6 eg_hex8 eg_tuple3 eg_tuple4) simp

subsection \<open>Idempotence of the formatter\<close>

lemma takeWhile_stop:
  assumes "\<forall>y \<in> set k0. P y" "r = [] \<or> \<not> P (hd r)"
  shows "takeWhile P (k0 @ r) = k0" "dropWhile P (k0 @ r) = r"
proof -
  have "takeWhile P r = []" "dropWhile P r = r" using assms(2) by (cases r; auto)+
  then show "takeWhile P (k0 @ r) = k0" "dropWhile P (k0 @ r) = r"
    using assms(1) by (simp_all add: takeWhile_append2 dropWhile_append2)
qed

lemma not_key_char_lits:
  "\<not> is_key_char (CHR '':'')" "\<not> is_key_char (CHR '' '')" "\<not> is_key_char (CHR ''['')"
  by (simp_all add: is_key_char_def is_alpha_us_def is_digit_def)

lemma space_is_space: "is_space (CHR '' '')" "\<not> is_space (CHR '':'')"
  by (simp_all add: is_space_def)

lemma dropWhile_spaces_colon:
  "\<forall>c \<in> set p. c = CHR '' '' \<Longrightarrow> dropWhile is_space (p @ CHR '':'' # rest) = CHR '':'' # rest"
  by (induction p) (simp_all add: space_is_space)

lemma kv_rest_colon:
  assumes "\<forall>c \<in> set p. c = CHR '' ''"
  shows "kv_rest k (p @ CHR '':'' # rest) =
           (if \<exists>c \<in> set (dropWhile is_space rest). is_line_term c then None
            else Some (k, dropWhile is_space rest))"
  unfolding kv_rest_def dropWhile_spaces_colon [OF assms]
  by (simp add: Let_def)

lemma kvRe_reparse:
  assumes "key_shape k" "\<forall>c \<in> set p. c = CHR '' ''"
  shows "kvRe (k @ p @ CHR '':'' # rest) =
           (if \<exists>c \<in> set (dropWhile is_space rest). is_line_term c then None
            else Some (k, dropWhile is_space rest))"
proof -
  obtain c k0 where c: "is_alpha_us c" and k0: "\<forall>y \<in> set k0. is_key_char y"
    and k: "k = c # k0 \<or> k = c # k0 @ ''[]''"
    using assms(1) by (auto simp: key_shape_def)
  let ?r = "p @ CHR '':'' # rest"
  have hr: "\<not> is_key_char (hd ?r)" "\<not> prefix ''[]'' ?r"
    using assms(2) by (cases p; auto simp: not_key_char_lits)+
  from k show ?thesis
  proof
    assume e: "k = c # k0"
    have "takeWhile is_key_char (k0 @ ?r) = k0" "dropWhile is_key_char (k0 @ ?r) = ?r"
      using k0 hr(1) by (rule takeWhile_stop [OF _ disjI2])+
    then show ?thesis
      using c hr(2) by (simp add: kvRe_def e Let_def kv_rest_colon [OF assms(2)])
  next
    assume e: "k = c # k0 @ ''[]''"
    have "takeWhile is_key_char (k0 @ ''[]'' @ ?r) = k0"
      "dropWhile is_key_char (k0 @ ''[]'' @ ?r) = ''[]'' @ ?r"
      using k0 by (rule takeWhile_stop; simp add: not_key_char_lits)+
    then show ?thesis
      using c by (simp add: kvRe_def e Let_def kv_rest_colon [OF assms(2)])
  qed
qed

lemma kv_rest_value:
  assumes "kv_rest k r = Some (k', v)"
  shows "k' = k \<and> (\<forall>c \<in> set v. \<not> is_line_term c)"
  using assms by (auto simp: kv_rest_def Let_def split: list.splits if_splits)

lemma kvRe_shape:
  assumes "kvRe t = Some (k, v)"
  shows "key_shape k \<and> (\<forall>c \<in> set v. \<not> is_line_term c)"
proof -
  obtain c cs where t: "t = c # cs" and c: "is_alpha_us c"
    using assms by (cases t) (auto simp: kvRe_def split: if_splits)
  let ?k0 = "takeWhile is_key_char cs"
  let ?r = "dropWhile is_key_char cs"
  have k0: "\<forall>y \<in> set ?k0. is_key_char y" by (auto dest: set_takeWhileD)
  show ?thesis
  proof (cases "prefix ''[]'' ?r")
    case True
    then have "kv_rest (c # ?k0 @ ''[]'') (drop 2 ?r) = Some (k, v)"
      using assms c by (simp add: kvRe_def t Let_def)
    then have "k = c # ?k0 @ ''[]'' \<and> (\<forall>c \<in> set v. \<not> is_line_term c)"
      using kv_rest_value by blast
    then show ?thesis using c k0 unfolding key_shape_def by blast
  next
    case False
    then have "kv_rest (c # ?k0) ?r = Some (k, v)"
      using assms c by (simp add: kvRe_def t Let_def)
    then have "k = c # ?k0 \<and> (\<forall>c \<in> set v. \<not> is_line_term c)"
      using kv_rest_value by blast
    then show ?thesis using c k0 unfolding key_shape_def by blast
  qed
qed

lemma key_shape_hd: "key_shape k \<Longrightarrow> k \<noteq> [] \<and> is_alpha_us (hd k)"
  by (auto simp: key_shape_def)

lemma key_shape_no_colon:
  assumes "key_shape k"
  shows "CHR '':'' \<notin> set k"
proof -
  obtain c k0 where c: "is_alpha_us c" and k0: "\<forall>y \<in> set k0. is_key_char y"
    and k: "k = c # k0 \<or> k = c # k0 @ ''[]''"
    using assms by (auto simp: key_shape_def)
  have "c \<noteq> CHR '':''" using c by (auto simp: is_alpha_us_def)
  moreover have "CHR '':'' \<notin> set k0" using k0 not_key_char_lits(1) by blast
  ultimately show ?thesis using k by auto
qed

lemma split_on_no_sep: "d \<notin> set s \<Longrightarrow> split_on d s = [s]"
proof -
  assume "d \<notin> set s"
  then have "dropWhile (\<lambda>c. c \<noteq> d) s = []" by (induction s) auto
  then show ?thesis by (rule split_on_last)
qed

lemma split_on_append_sep: "d \<notin> set p \<Longrightarrow> split_on d (p @ d # r) = p # split_on d r"
proof -
  assume a: "d \<notin> set p"
  then have "dropWhile (\<lambda>c. c \<noteq> d) (p @ d # r) = d # r" by (induction p) auto
  moreover have "takeWhile (\<lambda>c. c \<noteq> d) (p @ d # r) = p" using a by (induction p) auto
  ultimately show ?thesis using split_on_next [of d "p @ d # r" d r] by simp
qed

lemma split_on_nonempty: "split_on d s \<noteq> []"
  by (subst split_on.simps) (simp split: list.splits)

lemma split_on_Cons_other:
  "c \<noteq> d \<Longrightarrow> split_on d (c # s) = (c # hd (split_on d s)) # tl (split_on d s)"
proof (cases "dropWhile (\<lambda>c. c \<noteq> d) s")
  case Nil
  assume "c \<noteq> d"
  then have "dropWhile (\<lambda>c. c \<noteq> d) (c # s) = []" using Nil by simp
  then show ?thesis using Nil by (simp only: split_on_last) simp
next
  case (Cons y r)
  assume c: "c \<noteq> d"
  then have "dropWhile (\<lambda>c. c \<noteq> d) (c # s) = y # r" using Cons by simp
  then have "split_on d (c # s) = takeWhile (\<lambda>c. c \<noteq> d) (c # s) # split_on d r"
    by (rule split_on_next)
  moreover have "split_on d s = takeWhile (\<lambda>c. c \<noteq> d) s # split_on d r"
    using Cons by (rule split_on_next)
  ultimately show ?thesis using c by simp
qed

lemma split_on_pieces: "\<forall>p \<in> set (split_on d s). d \<notin> set p"
proof (induction d s rule: split_on.induct)
  case (1 d s)
  show ?case
  proof (cases "dropWhile (\<lambda>c. c \<noteq> d) s")
    case Nil
    then have "d \<notin> set s" by (metis (mono_tags, lifting) dropWhile_eq_Nil_conv)
    then show ?thesis using Nil by (simp only: split_on_last) simp
  next
    case (Cons y r)
    have "\<forall>p \<in> set (split_on d r). d \<notin> set p" using 1 Cons by blast
    moreover have "d \<notin> set (takeWhile (\<lambda>c. c \<noteq> d) s)" by (auto dest: set_takeWhileD)
    ultimately show ?thesis by (simp only: split_on_next [OF Cons]) simp
  qed
qed

lemma trim_space_Cons: "trim (CHR '' '' # s) = trim s"
  by (simp add: trim_def trimStart_def space_is_space)

lemma trim_split_join:
  assumes "ps \<noteq> []" "\<forall>p \<in> set ps. CHR '','' \<notin> set p \<and> trim p = p"
  shows "map trim (split_on (CHR '','') (join '', '' ps)) = ps"
  using assms
proof (induction "'', ''" ps rule: join.induct)
  case 1
  then show ?case by simp
next
  case (2 p)
  then show ?case by (simp add: split_on_no_sep)
next
  case (3 p q qs)
  let ?J = "join '', '' (q # qs)"
  have pc: "CHR '','' \<notin> set p" "trim p = p" using "3.prems"(2) by simp_all
  have ih: "map trim (split_on (CHR '','') ?J) = q # qs" using 3 by simp
  have ne: "split_on (CHR '','') ?J \<noteq> []" by (rule split_on_nonempty)
  have "split_on (CHR '','') (CHR '' '' # ?J)
          = (CHR '' '' # hd (split_on (CHR '','') ?J)) # tl (split_on (CHR '','') ?J)"
    by (rule split_on_Cons_other) simp
  then have "map trim (split_on (CHR '','') (CHR '' '' # ?J))
          = trim (hd (split_on (CHR '','') ?J)) # map trim (tl (split_on (CHR '','') ?J))"
    by (simp add: trim_space_Cons)
  also have "\<dots> = map trim (split_on (CHR '','') ?J)"
    using ne by (cases "split_on (CHR '','') ?J") simp_all
  finally have sp: "map trim (split_on (CHR '','') (CHR '' '' # ?J)) = q # qs"
    using ih by simp
  have "join '', '' (p # q # qs) = p @ CHR '','' # CHR '' '' # ?J" by simp
  then have "split_on (CHR '','') (join '', '' (p # q # qs))
          = p # split_on (CHR '','') (CHR '' '' # ?J)"
    using split_on_append_sep [OF pc(1)] by simp
  then show ?case using sp pc(2) by simp
qed

lemma not_lt_iff: "(\<forall>c \<in> set s. \<not> is_line_term c) \<longleftrightarrow> lacks (CHR 0x0A) s \<and> lacks (CHR 0x0D) s"
proof -
  have "\<And>c. is_line_term c \<longleftrightarrow> c = CHR 0x0A \<or> c = CHR 0x0D"
    using line_term_cases by (auto simp: is_line_term_def)
  then show ?thesis by (auto simp: lacks_def)
qed

lemma lt_lits: "is_line_term (CHR 0x0A)" "is_line_term (CHR 0x0D)"
  by (simp_all add: is_line_term_def)

lemma tupleRe_paren:
  "\<forall>c \<in> set J. \<not> is_line_term c \<Longrightarrow> tupleRe (CHR ''('' # J @ '')'') = Some J"
  by (simp add: tupleRe_def)

lemma trim_paren: "trim (CHR ''('' # J @ '')'') = CHR ''('' # J @ '')''"
  by (rule trim_id) (simp_all add: is_space_def)

lemma normTuple_tuple:
  assumes "tupleRe v = Some inner"
  shows "normTuple (normTuple v) = normTuple v \<and> trim (normTuple v) = normTuple v"
proof -
  define ps where "ps = map trim (split_on (CHR '','') inner)"
  define J where "J = join '', '' ps"
  have u: "normTuple v = CHR ''('' # J @ '')''"
    using assms by (simp add: normTuple_def J_def ps_def)
  have inner: "lacks (CHR 0x0A) inner \<and> lacks (CHR 0x0D) inner"
    using assms by (auto simp: tupleRe_def simp flip: not_lt_iff split: if_splits)
  have "\<forall>p \<in> set ps. lacks (CHR 0x0A) p \<and> lacks (CHR 0x0D) p"
    unfolding ps_def using inner lacks_split_on [of _ inner "CHR '',''"]
    by (auto simp: lacks_trim)
  then have "lacks (CHR 0x0A) J \<and> lacks (CHR 0x0D) J"
    unfolding J_def by (auto intro!: lacks_join)
  then have "\<forall>c \<in> set J. \<not> is_line_term c" by (simp only: not_lt_iff)
  then have t: "tupleRe (CHR ''('' # J @ '')'') = Some J" by (rule tupleRe_paren)
  have "\<forall>p \<in> set (split_on (CHR '','') inner). lacks (CHR '','') p"
    using split_on_pieces [of "CHR '',''" inner] by (simp add: lacks_def)
  then have ps: "\<forall>p \<in> set ps. CHR '','' \<notin> set p \<and> trim p = p"
    unfolding ps_def using lacks_trim [of "CHR '',''"] by (auto simp: lacks_def)
  have "ps \<noteq> []" unfolding ps_def using split_on_nonempty by simp
  then have "map trim (split_on (CHR '','') (join '', '' ps)) = ps"
    using ps by (rule trim_split_join)
  then have "normTuple (CHR ''('' # J @ '')'') = CHR ''('' # J @ '')''"
    unfolding normTuple_def t by (simp add: J_def)
  then show ?thesis using u trim_paren by simp
qed

lemma normTuple_idem: "normTuple (normTuple v) = normTuple v"
proof (cases "tupleRe v")
  case None
  then show ?thesis by (simp add: normTuple_def)
next
  case (Some inner)
  then show ?thesis using normTuple_tuple by blast
qed

lemma normTuple_trimmed: "trim v = v \<Longrightarrow> trim (normTuple v) = normTuple v"
proof (cases "tupleRe v")
  case None
  assume "trim v = v"
  then show ?thesis using None by (simp add: normTuple_def)
next
  case (Some inner)
  then show ?thesis using normTuple_tuple by blast
qed

lemma normTuple_no_lt:
  "\<forall>c \<in> set v. \<not> is_line_term c \<Longrightarrow> \<forall>c \<in> set (normTuple v). \<not> is_line_term c"
  by (simp add: not_lt_iff lacks_normTuple lt_lits)

lemma trim_no_lt: "\<forall>c \<in> set v. \<not> is_line_term c \<Longrightarrow> \<forall>c \<in> set (trim v). \<not> is_line_term c"
  by (simp add: not_lt_iff lacks_trim)

lemma val_ok_normValue:
  assumes "\<forall>c \<in> set v0. \<not> is_line_term c"
  shows "val_ok opts (normValue opts v0)"
proof (cases "spaceAfterCommaInTuples opts")
  case True
  then have u: "normValue opts v0 = normTuple (trim v0)" by (simp add: normValue_def)
  have t: "trim (normTuple (trim v0)) = normTuple (trim v0)"
    by (rule normTuple_trimmed) simp
  then have n: "normValue opts (normTuple (trim v0)) = normTuple (trim v0)"
    using True by (simp add: normValue_def normTuple_idem)
  have "\<forall>c \<in> set (trim v0). \<not> is_line_term c" using assms by (rule trim_no_lt)
  then have "\<forall>c \<in> set (normTuple (trim v0)). \<not> is_line_term c" by (rule normTuple_no_lt)
  then show ?thesis unfolding val_ok_def u using t n by blast
next
  case False
  then have u: "normValue opts v0 = trim v0" by (simp add: normValue_def)
  have "\<forall>c \<in> set (trim v0). \<not> is_line_term c" using assms by (rule trim_no_lt)
  then show ?thesis unfolding val_ok_def u using False
    by (simp add: normValue_def)
qed

lemma groupLevel_flushGroup [simp]:
  "groupLevel (flushGroup opts st) = (if group st = [] then groupLevel st else None)"
  by (simp add: flushGroup_def)

lemma groupLevel_addKV [simp]: "groupLevel (addKV opts e st) = Some (level st)"
  by (simp add: addKV_def Let_def)

lemma view_eq: "view opts st = out st @ map (render (alignColons opts) (maxKey (group st))) (group st)"
  by (simp add: view_def)

lemma trimmed_ends:
  assumes "trim v = v" "v \<noteq> []"
  shows "\<not> is_space (hd v)" "\<not> is_space (last v)"
  using trim_hd [of v] trim_last [of v] assms by simp_all

lemma render_body:
  assumes "key_shape (kv_key e)" "trim (kv_value e) = kv_value e"
  shows "render al w e = kv_indentStr e @ body al w (kv_key e) (kv_value e)"
proof -
  let ?k = "kv_key e" and ?v = "kv_value e" and ?i = "kv_indentStr e"
  have r: "render al w e = trimEnd (?i @ ?k @ pad al w ?k @ '': '' @ ?v)"
    by (simp add: render_def padEnd_def pad_def)
  show ?thesis
  proof (cases "?v = []")
    case True
    have "trimEnd ((?i @ ?k @ pad al w ?k @ '':'') @ '' '') = trimEnd (?i @ ?k @ pad al w ?k @ '':'')"
      by (rule trimEnd_append_spaces) (simp add: space_is_space)
    also have "\<dots> = ?i @ ?k @ pad al w ?k @ '':''"
      by (rule trimEnd_id) (simp_all add: space_is_space)
    finally show ?thesis using True by (simp add: r body_def)
  next
    case False
    then have "\<not> is_space (last ?v)" using assms(2) by (simp add: trimmed_ends)
    then have "trimEnd (?i @ ?k @ pad al w ?k @ '': '' @ ?v) = ?i @ ?k @ pad al w ?k @ '': '' @ ?v"
      using False by (intro trimEnd_id) simp_all
    then show ?thesis using False by (simp add: r body_def)
  qed
qed

lemma body_trimmed:
  assumes "key_shape k" "trim v = v"
  shows "trim (body al w k v) = body al w k v"
proof (rule trim_id)
  show "body al w k v \<noteq> []" by (simp add: body_def)
  have "k \<noteq> []" "\<not> is_space (hd k)"
    using key_shape_hd [OF assms(1)] by (simp_all add: alpha_not_space)
  then show "\<not> is_space (hd (body al w k v))" by (simp add: body_def)
  show "\<not> is_space (last (body al w k v))"
    using assms(2) by (auto simp: body_def space_is_space trimmed_ends)
qed

lemma repeat_spaces: "\<forall>c \<in> set u. is_space c \<Longrightarrow> \<forall>c \<in> set (repeat u n). is_space c"
  by (auto simp: repeat_def)

lemma trim_indented:
  assumes "\<forall>c \<in> set u. is_space c" "trim t = t"
  shows "trim (repeat u n @ t) = t"
  using assms by (simp add: trim_prepend_spaces repeat_spaces)

lemma kvRe_body:
  assumes "key_shape k" "trim v = v" "\<forall>c \<in> set v. \<not> is_line_term c"
  shows "kvRe (body al w k v) = Some (k, v)"
proof -
  let ?rest = "if v = [] then [] else CHR '' '' # v"
  have d: "dropWhile is_space ?rest = v"
    using assms(2) by (cases v) (auto simp: space_is_space dest: trimmed_ends(1))
  have "kvRe (k @ pad al w k @ CHR '':'' # ?rest) =
           (if \<exists>c \<in> set (dropWhile is_space ?rest). is_line_term c then None
            else Some (k, dropWhile is_space ?rest))"
    by (rule kvRe_reparse [OF assms(1)]) (simp add: pad_def)
  then show ?thesis unfolding d using assms(3) by (simp add: body_def)
qed

lemma kvRe_sii:
  "kvRe ''SiiNunit'' = None" "kvRe ''SiiNunit{'' = None" "kvRe ''SiiNunit {'' = None"
  by (simp_all add: kvRe_def kv_rest_def is_alpha_us_def is_key_char_def is_digit_def
        is_space_def)

lemma step_kv:
  assumes "kvRe (trim line) = Some (k, v0)"
  shows "step opts st line = kvStep opts k (normValue opts v0) (st\<lparr>emptyRun := 0\<rparr>)"
proof -
  obtain c cs where t: "trim line = c # cs" and c: "is_alpha_us c"
    using assms by (cases "trim line") (auto simp: kvRe_def split: if_splits)
  have n: "trim line \<noteq> []" "\<not> startsWith (trim line) ''}''" "trim line \<noteq> ''{''"
    "trim line \<noteq> ''}''" "\<not> isComment (trim line)" "\<not> isDirective (trim line)"
    using t c by (auto simp: startsWith_def isComment_def isDirective_def is_alpha_us_def)
  have s: "trim line \<noteq> ''SiiNunit''" "trim line \<noteq> ''SiiNunit{''" "trim line \<noteq> ''SiiNunit {''"
    using assms kvRe_sii by auto
  show ?thesis
    using n s assms by (simp add: step_nonblank Let_def dedent_def)
qed

lemma step_sii:
  assumes "trim line = ''SiiNunit'' \<or> trim line = ''SiiNunit{'' \<or> trim line = ''SiiNunit {''"
  shows "step opts st line = push ''SiiNunit'' (flushGroup opts (st\<lparr>emptyRun := 0\<rparr>))"
proof -
  have "trim line \<noteq> []" "\<not> startsWith (trim line) ''}''"
    using assms by (auto simp: startsWith_def)
  then show ?thesis using assms by (simp add: step_nonblank Let_def dedent_def)
qed

lemma step_pass:
  assumes "trim line \<noteq> []" "kvRe (trim line) = None"
    and "trim line \<noteq> ''SiiNunit''" "trim line \<noteq> ''SiiNunit{''" "trim line \<noteq> ''SiiNunit {''"
  shows "step opts st line
           = passStep opts (trim line) (dedent (trim line) (st\<lparr>emptyRun := 0\<rparr>))"
  using assms by (simp add: step_nonblank Let_def)

lemma run_inv_groupLevel:
  "run_inv opts st \<Longrightarrow> groupLevel st = None \<or> groupLevel st = Some (level st)"
  by (cases "group st = []") (auto simp: run_inv_def)

lemma kvStep_plain:
  assumes "\<not> endsWith v ''{''" "run_inv opts st"
  shows "level (kvStep opts k v (st\<lparr>emptyRun := 0\<rparr>)) = level st"
    and "emptyRun (kvStep opts k v (st\<lparr>emptyRun := 0\<rparr>)) = 0"
    and "out (kvStep opts k v (st\<lparr>emptyRun := 0\<rparr>)) = out st"
    and "group (kvStep opts k v (st\<lparr>emptyRun := 0\<rparr>))
           = group st @ [\<lparr>kv_indentStr = repeat (indent opts) (level st), kv_key = k,
                           kv_value = v, kv_level = level st\<rparr>]"
    and "groupLevel (kvStep opts k v (st\<lparr>emptyRun := 0\<rparr>)) = Some (level st)"
  using assms run_inv_groupLevel [OF assms(2)] by (auto simp: kvStep_def Let_def)

lemma kvStep_brace:
  assumes "endsWith v ''{''" "run_inv opts st"
    and "e = \<lparr>kv_indentStr = repeat (indent opts) (level st), kv_key = k,
               kv_value = v, kv_level = level st\<rparr>"
  shows "level (kvStep opts k v (st\<lparr>emptyRun := 0\<rparr>)) = level st + 1"
    and "emptyRun (kvStep opts k v (st\<lparr>emptyRun := 0\<rparr>)) = 0"
    and "out (kvStep opts k v (st\<lparr>emptyRun := 0\<rparr>))
           = out st @ map (render (alignColons opts) (maxKey (group st @ [e]))) (group st)
             @ [fixBrace (render (alignColons opts) (maxKey (group st @ [e])) e)]"
    and "group (kvStep opts k v (st\<lparr>emptyRun := 0\<rparr>)) = []"
    and "groupLevel (kvStep opts k v (st\<lparr>emptyRun := 0\<rparr>)) = None"
proof -
  define st2 where "st2 = addKV opts e (st\<lparr>emptyRun := 0\<rparr>)"
  have g: "group st2 = group st @ [e]" and o: "out st2 = out st"
    and l: "level st2 = level st" and r: "emptyRun st2 = 0"
    using run_inv_groupLevel [OF assms(2)] by (auto simp: st2_def)
  have k: "kvStep opts k v (st\<lparr>emptyRun := 0\<rparr>)
             = (fixLast (flushGroup opts st2))\<lparr>level := level (fixLast (flushGroup opts st2)) + 1\<rparr>"
    using assms(1) by (simp add: kvStep_def Let_def st2_def assms(3))
  show "level (kvStep opts k v (st\<lparr>emptyRun := 0\<rparr>)) = level st + 1"
    and "emptyRun (kvStep opts k v (st\<lparr>emptyRun := 0\<rparr>)) = 0"
    and "group (kvStep opts k v (st\<lparr>emptyRun := 0\<rparr>)) = []"
    and "groupLevel (kvStep opts k v (st\<lparr>emptyRun := 0\<rparr>)) = None"
    unfolding k using g l r by simp_all
  show "out (kvStep opts k v (st\<lparr>emptyRun := 0\<rparr>))
           = out st @ map (render (alignColons opts) (maxKey (group st @ [e]))) (group st)
             @ [fixBrace (render (alignColons opts) (maxKey (group st @ [e])) e)]"
    unfolding k using fixLast_flush_out [OF g, of opts] by (simp add: o g)
qed

lemma passStep_sum:
  assumes "run_inv opts st"
  shows "level (passStep opts t (dedent t (st\<lparr>emptyRun := 0\<rparr>)))
           = (if endsWith t ''{'' then level (dedent t st) + 1 else level (dedent t st))"
    and "emptyRun (passStep opts t (dedent t (st\<lparr>emptyRun := 0\<rparr>))) = 0"
    and "out (passStep opts t (dedent t (st\<lparr>emptyRun := 0\<rparr>)))
           = view opts st @ [repeat (indent opts) (level (dedent t st)) @ t]"
    and "group (passStep opts t (dedent t (st\<lparr>emptyRun := 0\<rparr>))) = []"
    and "groupLevel (passStep opts t (dedent t (st\<lparr>emptyRun := 0\<rparr>))) = None"
  using assms by (auto simp: passStep_def view_eq run_inv_def)

lemma sii_sum:
  assumes "run_inv opts st"
  shows "level (push ''SiiNunit'' (flushGroup opts (st\<lparr>emptyRun := 0\<rparr>))) = level st"
    and "emptyRun (push ''SiiNunit'' (flushGroup opts (st\<lparr>emptyRun := 0\<rparr>))) = 0"
    and "out (push ''SiiNunit'' (flushGroup opts (st\<lparr>emptyRun := 0\<rparr>)))
           = view opts st @ [''SiiNunit'']"
    and "group (push ''SiiNunit'' (flushGroup opts (st\<lparr>emptyRun := 0\<rparr>))) = []"
    and "groupLevel (push ''SiiNunit'' (flushGroup opts (st\<lparr>emptyRun := 0\<rparr>))) = None"
  using assms by (auto simp: view_eq run_inv_def)

lemma blankStep_sum:
  assumes "run_inv opts st"
  shows "level (blankStep opts st) = level st"
    and "emptyRun (blankStep opts st) = emptyRun st + 1"
    and "out (blankStep opts st)
           = view opts st @ (if emptyRun st + 1 \<le> maxEmptyLines opts then [[]] else [])"
    and "group (blankStep opts st) = []"
    and "groupLevel (blankStep opts st) = None"
  using assms by (auto simp: blankStep_def Let_def view_eq run_inv_def)

lemma step_run_inv:
  assumes "run_inv opts st"
  shows "run_inv opts (step opts st line)"
proof (cases "trim line = []")
  case True
  then show ?thesis
    using blankStep_sum [OF assms] by (simp add: step_blank run_inv_def)
next
  case ne: False
  show ?thesis
  proof (cases "kvRe (trim line)")
    case (Some kv)
    obtain k v0 where kv: "kv = (k, v0)" by (cases kv)
    have s: "step opts st line = kvStep opts k (normValue opts v0) (st\<lparr>emptyRun := 0\<rparr>)"
      using Some kv by (simp add: step_kv)
    have sh: "key_shape k" "val_ok opts (normValue opts v0)"
      using kvRe_shape [of "trim line" k v0] Some kv by (simp_all add: val_ok_normValue)
    show ?thesis
    proof (cases "endsWith (normValue opts v0) ''{''")
      case True
      show ?thesis
        unfolding s run_inv_def using kvStep_brace [OF True assms refl] by simp
    next
      case False
      show ?thesis
        unfolding s run_inv_def using kvStep_plain [OF False assms] assms sh False
        by (auto simp: run_inv_def entry_ok_def)
    qed
  next
    case None
    show ?thesis
    proof (cases "trim line = ''SiiNunit'' \<or> trim line = ''SiiNunit{'' \<or> trim line = ''SiiNunit {''")
      case True
      show ?thesis
        unfolding step_sii [OF True] run_inv_def using sii_sum [OF assms] by simp
    next
      case False
      then have "step opts st line
           = passStep opts (trim line) (dedent (trim line) (st\<lparr>emptyRun := 0\<rparr>))"
        using ne None by (simp add: step_pass)
      then show ?thesis
        unfolding run_inv_def using passStep_sum [OF assms] by simp
    qed
  qed
qed

lemma step_render:
  assumes "good_opts opts" and ks: "key_shape (kv_key e)" and vo: "val_ok opts (kv_value e)"
    and i: "kv_indentStr e = repeat (indent opts) lv"
  shows "step opts st (render al w e)
           = kvStep opts (kv_key e) (kv_value e) (st\<lparr>emptyRun := 0\<rparr>)"
proof -
  have tv: "trim (kv_value e) = kv_value e" and nl: "\<forall>c \<in> set (kv_value e). \<not> is_line_term c"
    and nv: "normValue opts (kv_value e) = kv_value e"
    using vo by (simp_all add: val_ok_def)
  have sp: "\<forall>c \<in> set (indent opts). is_space c" using assms(1) by (simp add: good_opts_def)
  have "render al w e = repeat (indent opts) lv @ body al w (kv_key e) (kv_value e)"
    using render_body [OF ks tv] i by simp
  then have "trim (render al w e) = body al w (kv_key e) (kv_value e)"
    using trim_indented [OF sp body_trimmed [OF ks tv]] by simp
  then have "kvRe (trim (render al w e)) = Some (kv_key e, kv_value e)"
    using kvRe_body [OF ks tv nl] by simp
  then show ?thesis using nv by (simp add: step_kv)
qed

lemma read_group:
  assumes "good_opts opts"
  shows "run_inv opts st \<Longrightarrow> \<forall>e \<in> set G. entry_ok opts (level st) e \<Longrightarrow>
     level (foldl (step opts) st (map (render al w) G)) = level st
     \<and> out (foldl (step opts) st (map (render al w) G)) = out st
     \<and> group (foldl (step opts) st (map (render al w) G)) = group st @ G
     \<and> run_inv opts (foldl (step opts) st (map (render al w) G))
     \<and> emptyRun (foldl (step opts) st (map (render al w) G))
         = (if G = [] then emptyRun st else 0)"
proof (induction G arbitrary: st)
  case Nil
  then show ?case by simp
next
  case (Cons e G)
  have e: "entry_ok opts (level st) e" using Cons.prems(2) by simp
  define st' where "st' = step opts st (render al w e)"
  have s: "st' = kvStep opts (kv_key e) (kv_value e) (st\<lparr>emptyRun := 0\<rparr>)"
    unfolding st'_def using e by (intro step_render [OF assms]) (simp_all add: entry_ok_def)
  have nb: "\<not> endsWith (kv_value e) ''{''" using e by (simp add: entry_ok_def)
  have ee: "\<lparr>kv_indentStr = repeat (indent opts) (level st), kv_key = kv_key e,
              kv_value = kv_value e, kv_level = level st\<rparr> = e"
    using e by (simp add: entry_ok_def)
  have f: "level st' = level st" "emptyRun st' = 0" "out st' = out st"
    "group st' = group st @ [e]"
    unfolding s using kvStep_plain [OF nb Cons.prems(1), of "kv_key e"] ee by simp_all
  have ri: "run_inv opts st'" unfolding st'_def using Cons.prems(1) by (rule step_run_inv)
  have "\<forall>x \<in> set G. entry_ok opts (level st') x" using Cons.prems(2) f(1) by simp
  from Cons.IH [OF ri this] show ?case using f by (simp add: st'_def)
qed

lemma endsWith_brace: "endsWith v ''{'' \<longleftrightarrow> v \<noteq> [] \<and> last v = CHR ''{''"
  by (cases v rule: rev_cases) (auto simp: endsWith_def)

lemma brace_not_space: "\<not> is_space (CHR ''{'')"
  by (simp add: is_space_def)

lemma braceValue_single: "butlast v = [] \<Longrightarrow> braceValue v = ''{''"
  by (simp add: braceValue_def)

lemma braceValue_long:
  assumes "trim v = v" "butlast v \<noteq> []"
  shows "braceValue v = trimEnd (butlast v) @ '' {''" "trimEnd (butlast v) \<noteq> []"
    "\<not> is_space (hd (trimEnd (butlast v)))"
proof -
  have v: "v \<noteq> []" using assms(2) by auto
  have hd: "hd (butlast v) = hd v" using assms(2) by (cases v) auto
  have "\<not> is_space (hd v)" using assms(1) v by (simp add: trimmed_ends)
  then have ns: "\<not> is_space (hd (butlast v))" using hd by simp
  show te: "trimEnd (butlast v) \<noteq> []"
    using assms(2) ns by (auto simp: trimEnd_eq_Nil)
  obtain w where w: "butlast v = trimEnd (butlast v) @ w" using trimEnd_decomp by blast
  then have "hd (trimEnd (butlast v)) = hd (butlast v)" using te by (metis hd_append2)
  then show "\<not> is_space (hd (trimEnd (butlast v)))" using ns by simp
  show "braceValue v = trimEnd (butlast v) @ '' {''" using assms(2) by (simp add: braceValue_def)
qed

lemma braceValue_props:
  assumes "trim v = v" "endsWith v ''{''"
  shows "trim (braceValue v) = braceValue v \<and> endsWith (braceValue v) ''{''
       \<and> braceValue (braceValue v) = braceValue v \<and> braceValue v \<noteq> []"
proof (cases "butlast v = []")
  case True
  then show ?thesis
    by (simp add: braceValue_single trim_id brace_not_space endsWith_brace)
next
  case False
  note b = braceValue_long [OF assms(1) False]
  have t: "trim (braceValue v) = braceValue v"
    unfolding b(1) using b(2,3) by (intro trim_id) (simp_all add: brace_not_space)
  have "trimEnd (trimEnd (butlast v) @ '' '') = trimEnd (trimEnd (butlast v))"
    by (rule trimEnd_append_spaces) (simp add: space_is_space)
  also have "\<dots> = trimEnd (butlast v)"
    using b(2) trimEnd_last [OF b(2)] by (rule trimEnd_id)
  finally have "braceValue (trimEnd (butlast v) @ '' {'') = trimEnd (butlast v) @ '' {''"
    using b(2) by (simp add: braceValue_def butlast_append)
  then show ?thesis using t b(1) by (simp add: endsWith_brace)
qed

lemma braceValue_val_ok:
  assumes "val_ok opts v" "endsWith v ''{''"
  shows "val_ok opts (braceValue v)"
proof -
  have tv: "trim v = v" and nl: "\<forall>c \<in> set v. \<not> is_line_term c"
    using assms(1) by (simp_all add: val_ok_def)
  have t: "trim (braceValue v) = braceValue v" and e: "endsWith (braceValue v) ''{''"
    using braceValue_props [OF tv assms(2)] by simp_all
  have "lacks (CHR 0x0A) (braceValue v) \<and> lacks (CHR 0x0D) (braceValue v)"
    using nl by (auto simp: not_lt_iff braceValue_def lacks_trimEnd lacks_butlast)
  then have n: "\<forall>c \<in> set (braceValue v). \<not> is_line_term c" by (simp only: not_lt_iff)
  have "tupleRe (braceValue v) = None"
    using e by (auto simp: tupleRe_def endsWith_brace)
  then have "normTuple (braceValue v) = braceValue v" by (simp add: normTuple_def)
  then have "normValue opts (braceValue v) = braceValue v"
    using t by (simp add: normValue_def Let_def)
  then show ?thesis using t n by (simp add: val_ok_def)
qed

lemma fixBrace_render:
  assumes "key_shape (kv_key e)" "trim (kv_value e) = kv_value e" "endsWith (kv_value e) ''{''"
  shows "fixBrace (render al w e) = render al w (e\<lparr>kv_value := braceValue (kv_value e)\<rparr>)"
proof -
  let ?k = "kv_key e" and ?v = "kv_value e" and ?i = "kv_indentStr e"
  let ?A = "?i @ ?k @ pad al w ?k @ '':''"
  have v: "?v \<noteq> []" "last ?v = CHR ''{''" using assms(3) by (simp_all add: endsWith_brace)
  have r: "render al w e = ?A @ CHR '' '' # ?v"
    using render_body [OF assms(1,2)] v(1) by (simp add: body_def)
  have bp: "trim (braceValue ?v) = braceValue ?v" "braceValue ?v \<noteq> []"
    using braceValue_props [OF assms(2,3)] by simp_all
  have r': "render al w (e\<lparr>kv_value := braceValue ?v\<rparr>) = ?A @ CHR '' '' # braceValue ?v"
    using render_body [of "e\<lparr>kv_value := braceValue ?v\<rparr>" al w] assms(1) bp
    by (simp add: body_def)
  have eb: "endsWith (?A @ CHR '' '' # ?v) ''{''" using v by (simp add: endsWith_brace)
  have bl: "butlast (?A @ CHR '' '' # ?v) = ?A @ CHR '' '' # butlast ?v"
    using v(1) by (simp add: butlast_append)
  have A: "trimEnd ?A = ?A" by (rule trimEnd_id) (simp_all add: space_is_space)
  have "trimEnd (?A @ CHR '' '' # butlast ?v) @ '' {'' = ?A @ CHR '' '' # braceValue ?v"
  proof (cases "butlast ?v = []")
    case True
    have "trimEnd (?A @ '' '') = trimEnd ?A"
      by (rule trimEnd_append_spaces) (simp add: space_is_space)
    then show ?thesis using True A by (simp add: braceValue_def)
  next
    case False
    then have te: "trimEnd (butlast ?v) \<noteq> []"
      using braceValue_long(2) [OF assms(2)] by simp
    then have "trimEnd (CHR '' '' # butlast ?v) = CHR '' '' # trimEnd (butlast ?v)"
      by (simp add: trimEnd_Cons)
    then have "trimEnd (?A @ CHR '' '' # butlast ?v) = ?A @ CHR '' '' # trimEnd (butlast ?v)"
      using trimEnd_append [of "CHR '' '' # butlast ?v" ?A] by simp
    then show ?thesis using False by (simp add: braceValue_def)
  qed
  then show ?thesis unfolding r r' fixBrace_def using eb bl by simp
qed

lemma fixBrace_fixed:
  assumes "key_shape (kv_key e)" "trim (kv_value e) = kv_value e" "endsWith (kv_value e) ''{''"
  shows "fixBrace (fixBrace (render al w e)) = fixBrace (render al w e)"
proof -
  let ?e' = "e\<lparr>kv_value := braceValue (kv_value e)\<rparr>"
  have bp: "trim (braceValue (kv_value e)) = braceValue (kv_value e)"
    "endsWith (braceValue (kv_value e)) ''{''"
    "braceValue (braceValue (kv_value e)) = braceValue (kv_value e)"
    using braceValue_props [OF assms(2,3)] by simp_all
  have "fixBrace (render al w ?e') = render al w (?e'\<lparr>kv_value := braceValue (kv_value ?e')\<rparr>)"
    by (rule fixBrace_render) (simp_all add: assms(1) bp)
  then have "fixBrace (render al w ?e') = render al w ?e'" by (simp add: bp)
  then show ?thesis using fixBrace_render [OF assms] by simp
qed

lemma render_noalign: "render False w e = render False w' e"
  by (simp add: render_def)

lemma flush_split:
  assumes "al \<longrightarrow> g2 = [] \<and> w = maxKey G"
  shows "map (render al (maxKey (g2 @ G))) (g2 @ G)
           = map (render al (maxKey g2)) g2 @ map (render al w) G"
proof (cases al)
  case True
  then show ?thesis using assms by simp
next
  case False
  then show ?thesis using render_noalign by auto
qed

lemma maxKey_snoc_key: "kv_key e' = kv_key e \<Longrightarrow> maxKey (G @ [e']) = maxKey (G @ [e])"
  by (simp add: maxKey_def)

lemma caught:
  assumes "good_opts opts" "run_inv opts st1" "run_inv opts st2" "sim opts st1 st2"
    and "st2a = foldl (step opts) st2 (map (render (alignColons opts) w) (group st1))"
  shows "level st2a = level st1" "out st2a = out st2" "group st2a = group st2 @ group st1"
    "run_inv opts st2a" "emptyRun st2a = (if group st1 = [] then emptyRun st2 else 0)"
proof -
  have l: "level st2 = level st1" using assms(4) by (simp add: sim_def)
  have "\<forall>e \<in> set (group st1). entry_ok opts (level st2) e"
    using assms(2) l by (simp add: run_inv_def)
  from read_group [OF assms(1,3) this, of "alignColons opts" w]
  show "level st2a = level st1" "out st2a = out st2" "group st2a = group st2 @ group st1"
    "run_inv opts st2a" "emptyRun st2a = (if group st1 = [] then emptyRun st2 else 0)"
    using l by (simp_all add: assms(5))
qed

lemma view_caught:
  assumes "sim opts st1 st2" "group st2a = group st2 @ group st1" "out st2a = out st2"
    and "alignColons opts \<longrightarrow> w = maxKey (group st1)"
  shows "view opts st2a
           = view opts st2 @ map (render (alignColons opts) w) (group st1)"
proof -
  have "alignColons opts \<longrightarrow> group st2 = [] \<and> w = maxKey (group st1)"
    using assms(1,4) by (simp add: sim_def)
  from flush_split [OF this] show ?thesis by (simp add: view_eq assms(2,3))
qed

lemma cu_pass:
  assumes good: "good_opts opts" and r1: "run_inv opts st1" and r2: "run_inv opts st2"
    and s: "sim opts st1 st2"
    and t: "trim l \<noteq> []" "kvRe (trim l) = None"
      "trim l \<noteq> ''SiiNunit''" "trim l \<noteq> ''SiiNunit{''" "trim l \<noteq> ''SiiNunit {''"
  shows "\<exists>xs. caughtUp opts st1 st2 (step opts st1 l) xs"
proof -
  define w where "w = maxKey (group st1)"
  define x where "x = repeat (indent opts) (level (dedent (trim l) st1)) @ trim l"
  define st2a where "st2a = foldl (step opts) st2 (map (render (alignColons opts) w) (group st1))"
  note c = caught [OF good r1 r2 s st2a_def]
  have v: "view opts st2a = view opts st2 @ map (render (alignColons opts) w) (group st1)"
    using s c(3,2) by (rule view_caught) (simp add: w_def)
  have s1: "step opts st1 l = passStep opts (trim l) (dedent (trim l) (st1\<lparr>emptyRun := 0\<rparr>))"
    using t by (rule step_pass)
  have sp: "\<forall>c \<in> set (indent opts). is_space c" using good by (simp add: good_opts_def)
  have tx: "trim x = trim l" unfolding x_def using sp by (rule trim_indented) simp
  have s2: "step opts st2a x = passStep opts (trim l) (dedent (trim l) (st2a\<lparr>emptyRun := 0\<rparr>))"
    using step_pass [of x opts st2a] t by (simp add: tx)
  have lx: "level (dedent (trim l) st2a) = level (dedent (trim l) st1)"
    using c(1) by simp
  have f: "foldl (step opts) st2 (map (render (alignColons opts) w) (group st1) @ [x])
             = step opts st2a x"
    by (simp add: st2a_def)
  have o1: "out (step opts st1 l) = out st1 @ map (render (alignColons opts) w) (group st1) @ [x]"
    unfolding s1 using passStep_sum(3) [OF r1] by (simp add: view_eq w_def x_def)
  have o2: "out (step opts st2a x) = view opts st2 @ map (render (alignColons opts) w) (group st1) @ [x]"
    unfolding s2 using passStep_sum(3) [OF c(4)] v lx by (simp add: x_def)
  have g2: "group (step opts st2a x) = []"
    unfolding s2 using passStep_sum(4) [OF c(4)] by simp
  have ri: "run_inv opts (step opts st2a x)" using c(4) by (rule step_run_inv)
  have si: "sim opts (step opts st1 l) (step opts st2a x)"
    unfolding sim_def s1 s2 using passStep_sum [OF r1] passStep_sum [OF c(4)] lx by simp
  have "caughtUp opts st1 st2 (step opts st1 l)
          (map (render (alignColons opts) w) (group st1) @ [x])"
    unfolding caughtUp_def f using o1 o2 g2 ri si by (simp add: view_eq)
  then show ?thesis by blast
qed

lemma cu_sii:
  assumes good: "good_opts opts" and r1: "run_inv opts st1" and r2: "run_inv opts st2"
    and s: "sim opts st1 st2"
    and t: "trim l = ''SiiNunit'' \<or> trim l = ''SiiNunit{'' \<or> trim l = ''SiiNunit {''"
  shows "\<exists>xs. caughtUp opts st1 st2 (step opts st1 l) xs"
proof -
  define w where "w = maxKey (group st1)"
  define st2a where "st2a = foldl (step opts) st2 (map (render (alignColons opts) w) (group st1))"
  note c = caught [OF good r1 r2 s st2a_def]
  have v: "view opts st2a = view opts st2 @ map (render (alignColons opts) w) (group st1)"
    using s c(3,2) by (rule view_caught) (simp add: w_def)
  have s1: "step opts st1 l = push ''SiiNunit'' (flushGroup opts (st1\<lparr>emptyRun := 0\<rparr>))"
    using t by (rule step_sii)
  have "trim ''SiiNunit'' = ''SiiNunit''" by (rule trim_id) (simp_all add: is_space_def)
  then have s2: "step opts st2a ''SiiNunit''
                   = push ''SiiNunit'' (flushGroup opts (st2a\<lparr>emptyRun := 0\<rparr>))"
    by (simp add: step_sii)
  have f: "foldl (step opts) st2 (map (render (alignColons opts) w) (group st1) @ [''SiiNunit''])
             = step opts st2a ''SiiNunit''"
    by (simp add: st2a_def)
  have o1: "out (step opts st1 l)
              = out st1 @ map (render (alignColons opts) w) (group st1) @ [''SiiNunit'']"
    unfolding s1 using sii_sum(3) [OF r1] by (simp add: view_eq w_def)
  have o2: "out (step opts st2a ''SiiNunit'')
              = view opts st2 @ map (render (alignColons opts) w) (group st1) @ [''SiiNunit'']"
    unfolding s2 using sii_sum(3) [OF c(4)] v by simp
  have g2: "group (step opts st2a ''SiiNunit'') = []"
    unfolding s2 using sii_sum(4) [OF c(4)] by simp
  have ri: "run_inv opts (step opts st2a ''SiiNunit'')" using c(4) by (rule step_run_inv)
  have si: "sim opts (step opts st1 l) (step opts st2a ''SiiNunit'')"
    unfolding sim_def s1 s2 using sii_sum [OF r1] sii_sum [OF c(4)] c(1) by simp
  have "caughtUp opts st1 st2 (step opts st1 l)
          (map (render (alignColons opts) w) (group st1) @ [''SiiNunit''])"
    unfolding caughtUp_def f using o1 o2 g2 ri si by (simp add: view_eq)
  then show ?thesis by blast
qed

lemma render_w_eq: "al \<longrightarrow> w' = w \<Longrightarrow> render al w' e = render al w e"
  by (cases al) (simp_all add: render_noalign)

lemma cu_blank:
  assumes good: "good_opts opts" and r1: "run_inv opts st1" and r2: "run_inv opts st2"
    and s: "sim opts st1 st2"
    and t: "trim l = []"
  shows "\<exists>xs. caughtUp opts st1 st2 (step opts st1 l) xs"
proof -
  define w where "w = maxKey (group st1)"
  define st2a where "st2a = foldl (step opts) st2 (map (render (alignColons opts) w) (group st1))"
  note c = caught [OF good r1 r2 s st2a_def]
  have v: "view opts st2a = view opts st2 @ map (render (alignColons opts) w) (group st1)"
    using s c(3,2) by (rule view_caught) (simp add: w_def)
  have s1: "step opts st1 l = blankStep opts st1" using t by (rule step_blank)
  have g0: "group st1 \<noteq> [] \<Longrightarrow> emptyRun st1 = 0" using r1 by (simp add: run_inv_def)
  show ?thesis
  proof (cases "emptyRun st1 + 1 \<le> maxEmptyLines opts")
    case True
    have er: "emptyRun st2a = emptyRun st1"
    proof (cases "group st1 = []")
      case True
      with \<open>emptyRun st1 + 1 \<le> maxEmptyLines opts\<close> s show ?thesis
        using c(5) by (simp add: sim_def)
    next
      case False
      then show ?thesis using c(5) g0 by simp
    qed
    have s2: "step opts st2a [] = blankStep opts st2a" by (simp add: step_blank)
    have f: "foldl (step opts) st2 (map (render (alignColons opts) w) (group st1) @ [[]])
               = blankStep opts st2a"
      using s2 by (simp add: st2a_def)
    have o1: "out (step opts st1 l)
                = out st1 @ map (render (alignColons opts) w) (group st1) @ [[]]"
      unfolding s1 using blankStep_sum(3) [OF r1] True by (simp add: view_eq w_def)
    have o2: "out (blankStep opts st2a)
                = view opts st2 @ map (render (alignColons opts) w) (group st1) @ [[]]"
      using blankStep_sum(3) [OF c(4)] v True er by simp
    have g2: "group (blankStep opts st2a) = []" using blankStep_sum(4) [OF c(4)] by simp
    have ri: "run_inv opts (blankStep opts st2a)"
      using step_run_inv [OF c(4), of "[]"] by (simp add: s2)
    have si: "sim opts (step opts st1 l) (blankStep opts st2a)"
      unfolding sim_def s1 using blankStep_sum [OF r1] blankStep_sum [OF c(4)] c(1) er by simp
    have "caughtUp opts st1 st2 (step opts st1 l)
            (map (render (alignColons opts) w) (group st1) @ [[]])"
      unfolding caughtUp_def f using o1 o2 g2 ri si by (simp add: view_eq)
    then show ?thesis by blast
  next
    case False
    have o1: "out (step opts st1 l) = out st1 @ map (render (alignColons opts) w) (group st1)"
      unfolding s1 using blankStep_sum(3) [OF r1] False by (simp add: view_eq w_def)
    have al: "alignColons opts \<Longrightarrow> group st1 = []"
    proof (rule ccontr)
      assume a: "alignColons opts" and ne: "group st1 \<noteq> []"
      then have "emptyRun st1 = 0" using g0 by simp
      with False have "\<not> 1 \<le> maxEmptyLines opts" by simp
      with good a show False by (simp add: good_opts_def)
    qed
    have si: "sim opts (step opts st1 l) st2a"
      unfolding sim_def s1 using blankStep_sum [OF r1] c(1,3) s al False
      by (auto simp: sim_def)
    have "caughtUp opts st1 st2 (step opts st1 l)
            (map (render (alignColons opts) w) (group st1))"
      unfolding caughtUp_def using o1 c(4) si v by (simp add: st2a_def)
    then show ?thesis by blast
  qed
qed

lemma cu_kv:
  assumes good: "good_opts opts" and r1: "run_inv opts st1" and r2: "run_inv opts st2"
    and s: "sim opts st1 st2"
    and t: "kvRe (trim l) = Some (k, v0)"
  shows "\<exists>xs. caughtUp opts st1 st2 (step opts st1 l) xs"
proof -
  define v where "v = normValue opts v0"
  define al where "al = alignColons opts"
  define E where "E = \<lparr>kv_indentStr = repeat (indent opts) (level st1), kv_key = k,
                         kv_value = v, kv_level = level st1\<rparr>"
  have s1: "step opts st1 l = kvStep opts k v (st1\<lparr>emptyRun := 0\<rparr>)"
    using t by (simp add: step_kv v_def)
  have ks: "key_shape k" and vo: "val_ok opts v"
    using kvRe_shape [OF t] by (simp_all add: v_def val_ok_normValue)
  have tv: "trim v = v" using vo by (simp add: val_ok_def)
  show ?thesis
  proof (cases "endsWith v ''{''")
    case False
    have "caughtUp opts st1 st2 (step opts st1 l) []"
      unfolding caughtUp_def s1 sim_def
      using kvStep_plain [OF False r1, of k] r2 s by (simp add: sim_def)
    then show ?thesis by blast
  next
    case True
    define w where "w = maxKey (group st1 @ [E])"
    define x where "x = fixBrace (render al w E)"
    define E' where "E' = E\<lparr>kv_value := braceValue v\<rparr>"
    define st2a where "st2a = foldl (step opts) st2 (map (render al w) (group st1))"
    note c = caught [OF good r1 r2 s st2a_def [unfolded al_def]]
    have o1: "out (step opts st1 l) = out st1 @ map (render al w) (group st1) @ [x]"
      unfolding s1 using kvStep_brace(3) [OF True r1 E_def] by (simp add: al_def w_def x_def)
    have xr: "x = render al w E'"
      unfolding x_def E'_def using fixBrace_render [of E al w] ks tv True by (simp add: E_def)
    have xf: "fixBrace x = x"
      unfolding x_def using fixBrace_fixed [of E al w] ks tv True by (simp add: E_def)
    have vo': "val_ok opts (braceValue v)" using vo True by (rule braceValue_val_ok)
    have eb: "endsWith (braceValue v) ''{''"
      using braceValue_props [OF tv True] by simp
    have s2: "step opts st2a x = kvStep opts k (braceValue v) (st2a\<lparr>emptyRun := 0\<rparr>)"
      unfolding xr using step_render [OF good, of E' "level st1" st2a al w] ks vo'
      by (simp add: E'_def E_def)
    have E2: "E' = \<lparr>kv_indentStr = repeat (indent opts) (level st2a), kv_key = k,
                     kv_value = braceValue v, kv_level = level st2a\<rparr>"
      using c(1) by (simp add: E'_def E_def)
    define w2 where "w2 = maxKey (group st2a @ [E'])"
    have ww: "al \<longrightarrow> w2 = w"
    proof
      assume al
      then have "group st2 = []" using s by (simp add: sim_def al_def)
      then have "w2 = maxKey (group st1 @ [E'])" using c(3) by (simp add: w2_def)
      also have "\<dots> = maxKey (group st1 @ [E])"
        by (rule maxKey_snoc_key) (simp add: E'_def)
      finally show "w2 = w" by (simp add: w_def)
    qed
    have rw: "\<And>e. render al w2 e = render al w e" using ww by (rule render_w_eq)
    have g2e: "al \<longrightarrow> group st2 = []" using s by (simp add: sim_def al_def)
    have rg: "map (render al w) (group st2)
                = map (render al (maxKey (group st2))) (group st2)"
      using g2e by (cases al) (auto intro: render_noalign)
    have kb: "out (kvStep opts k (braceValue v) (st2a\<lparr>emptyRun := 0\<rparr>))
                = out st2a @ map (render al w2) (group st2a) @ [fixBrace (render al w2 E')]"
      using kvStep_brace(3) [OF eb c(4) E2] by (simp only: al_def w2_def)
    have xf': "fixBrace (render al w E') = render al w E'" using xf xr by simp
    have "out (step opts st2a x)
            = out st2 @ map (render al w) (group st2 @ group st1) @ [fixBrace (render al w E')]"
      unfolding s2 kb rw c(2) c(3) by simp
    then have o2: "out (step opts st2a x) = view opts st2 @ map (render al w) (group st1) @ [x]"
      by (simp add: view_eq rg xf xr [symmetric] flip: al_def)
    have g2: "group (step opts st2a x) = []"
      unfolding s2 using kvStep_brace(4) [OF eb c(4) E2] by simp
    have ri: "run_inv opts (step opts st2a x)" using c(4) by (rule step_run_inv)
    have si: "sim opts (step opts st1 l) (step opts st2a x)"
      unfolding sim_def s1 s2
      using kvStep_brace [OF True r1 E_def] kvStep_brace [OF eb c(4) E2] c(1) by simp
    have f: "foldl (step opts) st2 (map (render al w) (group st1) @ [x]) = step opts st2a x"
      by (simp add: st2a_def)
    have "caughtUp opts st1 st2 (step opts st1 l) (map (render al w) (group st1) @ [x])"
      unfolding caughtUp_def f using o1 o2 g2 ri si by (simp add: view_eq)
    then show ?thesis by blast
  qed
qed

lemma catch_up:
  assumes "good_opts opts" "run_inv opts st1" "run_inv opts st2" "sim opts st1 st2"
  shows "\<exists>xs. caughtUp opts st1 st2 (step opts st1 l) xs"
proof (cases "trim l = []")
  case True
  with assms show ?thesis by (rule cu_blank)
next
  case ne: False
  show ?thesis
  proof (cases "kvRe (trim l)")
    case (Some kv)
    then obtain k v0 where "kvRe (trim l) = Some (k, v0)" by (cases kv) auto
    with assms show ?thesis by (rule cu_kv)
  next
    case None
    show ?thesis
    proof (cases "trim l = ''SiiNunit'' \<or> trim l = ''SiiNunit{'' \<or> trim l = ''SiiNunit {''")
      case True
      with assms show ?thesis by (rule cu_sii)
    next
      case False
      with assms ne None show ?thesis by (intro cu_pass) simp_all
    qed
  qed
qed

lemma view_mono: "run_inv opts st \<Longrightarrow> \<exists>zs. view opts (foldl (step opts) st ls) = out st @ zs"
proof (induction ls arbitrary: st)
  case Nil
  then show ?case by (simp add: view_eq)
next
  case (Cons l ls)
  have "sim opts st (st\<lparr>group := [], groupLevel := None\<rparr>)"
    by (simp add: sim_def)
  have ri: "run_inv opts (step opts st l)" using Cons.prems by (rule step_run_inv)
  obtain zs where zs: "view opts (foldl (step opts) (step opts st l) ls) = out (step opts st l) @ zs"
    using Cons.IH [OF ri] by blast
  have "\<exists>xs. out (step opts st l) = out st @ xs"
  proof (cases "trim l = []")
    case True
    then show ?thesis using blankStep_sum(3) [OF Cons.prems] by (simp add: step_blank view_eq)
  next
    case ne: False
    show ?thesis
    proof (cases "kvRe (trim l)")
      case (Some kv)
      then obtain k v0 where kv: "kvRe (trim l) = Some (k, v0)" by (cases kv) auto
      show ?thesis
        unfolding step_kv [OF kv]
        using kvStep_plain(3) [OF _ Cons.prems, of "normValue opts v0" k]
          kvStep_brace(3) [OF _ Cons.prems refl, of "normValue opts v0" k]
        by (cases "endsWith (normValue opts v0) ''{''") simp_all
    next
      case None
      show ?thesis
      proof (cases "trim l = ''SiiNunit'' \<or> trim l = ''SiiNunit{'' \<or> trim l = ''SiiNunit {''")
        case True
        show ?thesis unfolding step_sii [OF True] using sii_sum(3) [OF Cons.prems]
          by (simp add: view_eq)
      next
        case False
        then have "step opts st l
           = passStep opts (trim l) (dedent (trim l) (st\<lparr>emptyRun := 0\<rparr>))"
          using ne None by (simp add: step_pass)
        then show ?thesis using passStep_sum(3) [OF Cons.prems] by (simp add: view_eq)
      qed
    qed
  qed
  then show ?case using zs by auto
qed

lemma second_pass:
  assumes good: "good_opts opts"
  shows "run_inv opts st1 \<Longrightarrow> run_inv opts st2 \<Longrightarrow> sim opts st1 st2 \<Longrightarrow>
     view opts (foldl (step opts) st1 ls) = out st1 @ ys \<Longrightarrow>
     view opts (foldl (step opts) st2 ys) = view opts st2 @ ys"
proof (induction ls arbitrary: st1 st2 ys)
  case Nil
  define w where "w = maxKey (group st1)"
  define st2a where "st2a = foldl (step opts) st2 (map (render (alignColons opts) w) (group st1))"
  note c = caught [OF good Nil.prems(1,2,3) st2a_def]
  have "ys = map (render (alignColons opts) w) (group st1)"
    using Nil.prems(4) by (simp add: view_eq w_def)
  moreover have "view opts st2a = view opts st2 @ map (render (alignColons opts) w) (group st1)"
    using Nil.prems(3) c(3,2) by (rule view_caught) (simp add: w_def)
  ultimately show ?case by (simp add: st2a_def)
next
  case (Cons l ls)
  obtain xs where cu: "caughtUp opts st1 st2 (step opts st1 l) xs"
    using catch_up [OF good Cons.prems(1,2,3)] by blast
  have ri: "run_inv opts (step opts st1 l)" using Cons.prems(1) by (rule step_run_inv)
  obtain zs where zs: "view opts (foldl (step opts) (step opts st1 l) ls)
                         = out (step opts st1 l) @ zs"
    using view_mono [OF ri] by blast
  have ys: "ys = xs @ zs" using Cons.prems(4) zs cu by (simp add: caughtUp_def)
  have "view opts (foldl (step opts) (foldl (step opts) st2 xs) zs)
          = view opts (foldl (step opts) st2 xs) @ zs"
    using cu zs by (intro Cons.IH [OF ri]) (simp_all add: caughtUp_def)
  then show ?case using cu by (simp add: ys caughtUp_def)
qed

lemma init_run_inv: "run_inv opts init_state"
  by (simp add: run_inv_def init_state_def)

lemma formatLines_idem:
  assumes "good_opts opts"
  shows "formatLines opts (formatLines opts ls) = formatLines opts ls"
proof -
  have "sim opts init_state init_state" by (simp add: sim_def init_state_def)
  moreover have "view opts (foldl (step opts) init_state ls) = out init_state @ formatLines opts ls"
    by (simp add: view_def formatLines_def init_state_def)
  ultimately have "view opts (foldl (step opts) init_state (formatLines opts ls))
      = view opts init_state @ formatLines opts ls"
    using second_pass [OF assms init_run_inv init_run_inv] by blast
  then show ?thesis by (simp add: view_def formatLines_def init_state_def flushGroup_def)
qed

lemma cr_space: "is_space (CHR 0x0D)"
  by (simp add: is_space_def)

lemma ends_ok_nonspace: "l = [] \<or> \<not> is_space (last l) \<Longrightarrow> ends_ok l"
  using cr_space by (auto simp: ends_ok_def)

lemma ends_ok_trimEnd: "ends_ok (trimEnd s)"
  using trimEnd_last [of s] by (intro ends_ok_nonspace) blast

lemma ends_ok_render: "ends_ok (render al w e)"
  unfolding render_def by (rule ends_ok_trimEnd)

lemma ends_ok_fixBrace: "ends_ok l \<Longrightarrow> ends_ok (fixBrace l)"
  by (simp add: fixBrace_def ends_ok_def)

lemma ends_ok_lits: "ends_ok []" "ends_ok ''SiiNunit''"
  by (simp_all add: ends_ok_def)

lemma ends_ok_pass: "t \<noteq> [] \<Longrightarrow> \<not> is_space (last t) \<Longrightarrow> ends_ok (i @ t)"
  by (intro ends_ok_nonspace) simp

lemma flushGroup_ends: "ends_inv st \<Longrightarrow> ends_inv (flushGroup opts st)"
  by (auto simp: ends_inv_def ends_ok_render)

lemma blankStep_ends: "ends_inv st \<Longrightarrow> ends_inv (blankStep opts st)"
  by (auto simp: blankStep_def Let_def ends_inv_def ends_ok_render ends_ok_lits)

lemma passStep_ends:
  "ends_inv st \<Longrightarrow> t \<noteq> [] \<Longrightarrow> \<not> is_space (last t) \<Longrightarrow> ends_inv (passStep opts t st)"
  by (auto simp: passStep_def ends_inv_def ends_ok_render ends_ok_pass)

lemma dedent_ends: "ends_inv st \<Longrightarrow> ends_inv (dedent t (st\<lparr>emptyRun := 0\<rparr>))"
  by (auto simp: dedent_def ends_inv_def)

lemma sii_ends: "ends_inv st \<Longrightarrow> ends_inv (push ''SiiNunit'' (flushGroup opts st))"
  by (auto simp: ends_inv_def ends_ok_render ends_ok_lits)

lemma kvStep_ends:
  assumes "ends_inv st"
  shows "ends_inv (kvStep opts k v st)"
proof -
  define e where "e = \<lparr>kv_indentStr = repeat (indent opts) (level st), kv_key = k,
             kv_value = v, kv_level = level st\<rparr>"
  define st2 where "st2 = addKV opts e st"
  have i2: "ends_inv st2"
    using assms by (auto simp: ends_inv_def ends_ok_render st2_def)
  have "\<exists>g. group st2 = g @ [e]"
    by (cases "groupLevel st = None \<or> groupLevel st = Some (level st)") (auto simp: st2_def)
  then obtain g where g: "group st2 = g @ [e]" by blast
  have "ends_inv (fixLast (flushGroup opts st2))"
    unfolding ends_inv_def fixLast_flush_out [OF g] using i2
    by (auto simp: ends_inv_def ends_ok_render ends_ok_fixBrace)
  then have "ends_inv ((fixLast (flushGroup opts st2))\<lparr>level := level (fixLast (flushGroup opts st2)) + 1\<rparr>)"
    by (simp add: ends_inv_def)
  then show ?thesis using i2
    by (simp add: kvStep_def Let_def flip: e_def st2_def)
qed

lemma step_ends:
  assumes "ends_inv st"
  shows "ends_inv (step opts st line)"
proof (cases "trim line = []")
  case True
  then show ?thesis using assms by (simp add: step_blank blankStep_ends)
next
  case False
  have t: "\<not> is_space (last (trim line))" using False by (rule trim_last)
  have i1: "ends_inv (dedent (trim line) (st\<lparr>emptyRun := 0\<rparr>))"
    using assms by (rule dedent_ends)
  show ?thesis
    using False t i1
    by (auto simp: step_nonblank Let_def sii_ends passStep_ends kvStep_ends split: option.splits)
qed

lemma foldl_ends: "ends_inv st \<Longrightarrow> ends_inv (foldl (step opts) st ls)"
  by (induction ls arbitrary: st) (simp_all add: step_ends)

lemma formatLines_ends: "\<forall>l \<in> set (formatLines opts ls). ends_ok l"
proof -
  have "ends_inv init_state" by (simp add: ends_inv_def init_state_def)
  then have "ends_inv (flushGroup opts (foldl (step opts) init_state ls))"
    by (intro flushGroup_ends foldl_ends)
  then show ?thesis by (simp add: ends_inv_def formatLines_def del: flushGroup_fields)
qed

lemma split_lines_line:
  "lacks (CHR 0x0A) l \<Longrightarrow> split_lines l = [l]"
proof (induction l rule: split_lines.induct)
  case 1
  then show ?case by simp
next
  case (2 c cs)
  then have c: "c \<noteq> CHR 0x0A" and cs: "lacks (CHR 0x0A) cs" by simp_all
  have "\<not> (cs \<noteq> [] \<and> hd cs = CHR 0x0A)" using cs by (cases cs) auto
  then show ?case using 2 c cs by simp
qed

lemma split_lines_then_lf:
  "lacks (CHR 0x0A) l \<Longrightarrow> ends_ok l \<Longrightarrow> split_lines (l @ CHR 0x0A # s) = l # split_lines s"
proof (induction l)
  case Nil
  then show ?case by simp
next
  case (Cons c l)
  have c: "c \<noteq> CHR 0x0A" and l: "lacks (CHR 0x0A) l" using Cons.prems(1) by simp_all
  have e: "ends_ok l" using Cons.prems(2) by (auto simp: ends_ok_def split: if_splits)
  have ih: "split_lines (l @ CHR 0x0A # s) = l # split_lines s" using Cons.IH l e by simp
  have "\<not> (c = CHR 0x0D \<and> hd (l @ CHR 0x0A # s) = CHR 0x0A)"
  proof (cases l)
    case Nil
    then show ?thesis using Cons.prems(2) by (simp add: ends_ok_def)
  next
    case (Cons d ds)
    then show ?thesis using l by simp
  qed
  then show ?case using c ih by simp
qed

lemma split_join:
  "ys \<noteq> [] \<Longrightarrow> \<forall>y \<in> set ys. lacks (CHR 0x0A) y \<and> ends_ok y
     \<Longrightarrow> split_lines (join [CHR 0x0A] ys) = ys"
  by (induction "[CHR 0x0A]" ys rule: join.induct)
     (simp_all add: split_lines_line split_lines_then_lf)

lemma formatLines_blank:
  "join [CHR 0x0A] (formatLines opts [[]]) = []"
  by (simp add: formatLines_def step_blank blankStep_def Let_def init_state_def flushGroup_def push_def)

text \<open>
  C1, as stated: for every input and every options bundle, formatting the output again
  gives the output. With no blank line kept (\<open>maxEmptyLines\<close> 0) and the alignment of
  colons, two groups that a blank line separates in the input are next to each other in
  the output, and the second pass aligns them as one group. With a unit of indentation
  that holds a character other than white space, the second pass takes the indentation
  of a line for its content and indents it once more; with a line feed as the unit, it
  takes the indentation for a blank line.
\<close>

theorem format_not_idempotent:
  "formatScsText (''a: 1'' @ [CHR 0x0A, CHR 0x0A] @ ''bbb: 2'') (default_opts\<lparr>maxEmptyLines := 0\<rparr>)
     = ''a: 1'' @ [CHR 0x0A] @ ''bbb: 2''
   \<and> formatScsText (formatScsText (''a: 1'' @ [CHR 0x0A, CHR 0x0A] @ ''bbb: 2'')
         (default_opts\<lparr>maxEmptyLines := 0\<rparr>)) (default_opts\<lparr>maxEmptyLines := 0\<rparr>)
     = ''a  : 1'' @ [CHR 0x0A] @ ''bbb: 2''
   \<and> formatScsText (formatScsText (''a: 1'' @ [CHR 0x0A, CHR 0x0A] @ ''bbb: 2'')
         (default_opts\<lparr>maxEmptyLines := 0\<rparr>)) (default_opts\<lparr>maxEmptyLines := 0\<rparr>)
     \<noteq> formatScsText (''a: 1'' @ [CHR 0x0A, CHR 0x0A] @ ''bbb: 2'') (default_opts\<lparr>maxEmptyLines := 0\<rparr>)
   \<and> formatScsText (''{'' @ [CHR 0x0A] @ ''a'') (default_opts\<lparr>indent := ''--''\<rparr>)
     = ''{'' @ [CHR 0x0A] @ ''--a''
   \<and> formatScsText (formatScsText (''{'' @ [CHR 0x0A] @ ''a'') (default_opts\<lparr>indent := ''--''\<rparr>))
         (default_opts\<lparr>indent := ''--''\<rparr>)
     = ''{'' @ [CHR 0x0A] @ ''----a''
   \<and> formatScsText (formatScsText (''{'' @ [CHR 0x0A] @ ''a'') (default_opts\<lparr>indent := ''--''\<rparr>))
         (default_opts\<lparr>indent := ''--''\<rparr>)
     \<noteq> formatScsText (''{'' @ [CHR 0x0A] @ ''a'') (default_opts\<lparr>indent := ''--''\<rparr>)
   \<and> formatScsText (''{'' @ [CHR 0x0A] @ ''a'') (default_opts\<lparr>indent := [CHR 0x0A]\<rparr>)
     = ''{'' @ [CHR 0x0A, CHR 0x0A] @ ''a''
   \<and> formatScsText (formatScsText (''{'' @ [CHR 0x0A] @ ''a'') (default_opts\<lparr>indent := [CHR 0x0A]\<rparr>))
         (default_opts\<lparr>indent := [CHR 0x0A]\<rparr>)
     = ''{'' @ [CHR 0x0A, CHR 0x0A, CHR 0x0A] @ ''a''
   \<and> formatScsText (formatScsText (''{'' @ [CHR 0x0A] @ ''a'') (default_opts\<lparr>indent := [CHR 0x0A]\<rparr>))
         (default_opts\<lparr>indent := [CHR 0x0A]\<rparr>)
     \<noteq> formatScsText (''{'' @ [CHR 0x0A] @ ''a'') (default_opts\<lparr>indent := [CHR 0x0A]\<rparr>)"
  by code_simp

text \<open>
  C1, amended: when the unit of indentation is made of white space other than the line
  feed, and a blank line is kept (\<open>maxEmptyLines\<close> at least 1) or the colons are not
  aligned, formatting the output of the formatter again gives that output, for every
  input.
\<close>

theorem formatScsText_idem:
  assumes "\<forall>c \<in> set (indent opts). is_space c \<and> c \<noteq> CHR 0x0A"
    and "1 \<le> maxEmptyLines opts \<or> \<not> alignColons opts"
  shows "formatScsText (formatScsText input opts) opts = formatScsText input opts"
proof -
  have good: "good_opts opts" using assms by (simp add: good_opts_def)
  define ys where "ys = formatLines opts (split_lines input)"
  show ?thesis
  proof (cases "ys = []")
    case True
    then show ?thesis
      using formatLines_blank [of opts] by (simp add: formatScsText_def flip: ys_def)
  next
    case False
    have lf: "is_line_term (CHR 0x0A)" by (simp add: is_line_term_def)
    have "lacks (CHR 0x0A) (indent opts)" using assms(1) by (auto simp: lacks_def)
    then have "\<forall>l \<in> set ys. lacks (CHR 0x0A) l"
      unfolding ys_def using split_lines_no_lf lf by (intro formatLines_lacks) simp_all
    moreover have "\<forall>l \<in> set ys. ends_ok l"
      unfolding ys_def by (rule formatLines_ends)
    ultimately have "split_lines (join [CHR 0x0A] ys) = ys"
      using False by (intro split_join) simp_all
    then show ?thesis
      using formatLines_idem [OF good, of "split_lines input"]
      by (simp add: formatScsText_def flip: ys_def)
  qed
qed

lemma eg_format:
  "formatScsText (''SiiNunit'' @ [CHR 0x0A] @ ''{'' @ [CHR 0x0A] @ ''a : (1,2)'' @ [CHR 0x0A]
       @ ''bbb:2  '' @ [CHR 0x0A, CHR 0x0A, CHR 0x0A] @ ''unit : x {'' @ [CHR 0x0A] @ ''# c'' @ [CHR 0x0A]
       @ ''}'' @ [CHR 0x0A] @ ''}'') default_opts
     = ''SiiNunit'' @ [CHR 0x0A] @ ''{'' @ [CHR 0x0A, CHR 0x09] @ ''a  : (1, 2)'' @ [CHR 0x0A, CHR 0x09]
       @ ''bbb: 2'' @ [CHR 0x0A, CHR 0x0A, CHR 0x09] @ ''unit: x {'' @ [CHR 0x0A, CHR 0x09, CHR 0x09] @ ''# c''
       @ [CHR 0x0A, CHR 0x09] @ ''}'' @ [CHR 0x0A] @ ''}''"
  by code_simp

theorem formatScsText_idem_witness:
  "indent default_opts = [CHR 0x09] \<and> is_space (CHR 0x09) \<and> CHR 0x09 \<noteq> CHR 0x0A
   \<and> maxEmptyLines default_opts = 1
   \<and> formatScsText (''SiiNunit'' @ [CHR 0x0A] @ ''{'' @ [CHR 0x0A, CHR 0x09] @ ''a  : (1, 2)'' @ [CHR 0x0A, CHR 0x09]
       @ ''bbb: 2'' @ [CHR 0x0A, CHR 0x0A, CHR 0x09] @ ''unit: x {'' @ [CHR 0x0A, CHR 0x09, CHR 0x09] @ ''# c''
       @ [CHR 0x0A, CHR 0x09] @ ''}'' @ [CHR 0x0A] @ ''}'') default_opts
     = ''SiiNunit'' @ [CHR 0x0A] @ ''{'' @ [CHR 0x0A, CHR 0x09] @ ''a  : (1, 2)'' @ [CHR 0x0A, CHR 0x09]
       @ ''bbb: 2'' @ [CHR 0x0A, CHR 0x0A, CHR 0x09] @ ''unit: x {'' @ [CHR 0x0A, CHR 0x09, CHR 0x09] @ ''# c''
       @ [CHR 0x0A, CHR 0x09] @ ''}'' @ [CHR 0x0A] @ ''}''"
  using formatScsText_idem [of default_opts "''SiiNunit'' @ [CHR 0x0A] @ ''{'' @ [CHR 0x0A] @ ''a : (1,2)'' @ [CHR 0x0A]
       @ ''bbb:2  '' @ [CHR 0x0A, CHR 0x0A, CHR 0x0A] @ ''unit : x {'' @ [CHR 0x0A] @ ''# c'' @ [CHR 0x0A]
       @ ''}'' @ [CHR 0x0A] @ ''}''"]
  apply (simp only: eg_format)
  apply (simp add: default_opts_def is_space_def)
  done

end
